theory Spec2Isabelle
  imports Main "HOL-Library.Word" "HOL-Library.Sublist"
begin

section \<open>The list-item handler of hast-util-to-mdast (lib/handlers/li.js)\<close>

subsection \<open>Data model: hast nodes\<close>

text \<open>
  A JavaScript string is a sequence of 16-bit code units. Text values are kept in that
  form, because \<^verbatim>\<open>trimStart\<close> looks at code units. Tag names and property names are
  only ever compared with ASCII literals; they are kept as \<open>string\<close>.
\<close>

type_synonym code_unit = "16 word"
type_synonym js_string = "code_unit list"

definition ascii :: "string \<Rightarrow> js_string" where
  "ascii s = map (\<lambda>c. of_nat (of_char c)) s"

text \<open>
  A property value of hast: \<^verbatim>\<open>null\<close>, a boolean, a number, a string or a list of
  strings. An absent key (\<^verbatim>\<open>undefined\<close>) is \<open>None\<close> of the lookup. The source
  does one thing with a number, \<^verbatim>\<open>Boolean(x)\<close>, so an integer stands for it: zero
  for the numbers that are falsy.
\<close>

datatype prop_value = PNull | PBool bool | PNum int | PStr string | PList "string list"

type_synonym properties = "(string \<times> prop_value) list"

text \<open>
  An element has a tag name, properties (possibly missing: the source guards
  \<^verbatim>\<open>candidate.properties &&\<close>) and children. A child is an element, a text or a comment.
  The other fields of a node (\<^verbatim>\<open>position\<close>, \<^verbatim>\<open>data\<close>) are left out: the handler
  copies them with the spread syntax and never reads them.
\<close>

datatype element = Elem (tagName: string) (properties: "properties option") (children: "node list")
  and node = Element element | Text js_string | Comment js_string

datatype error = TypeError

text \<open>
  The object \<^verbatim>\<open>{checked, clone}\<close> that the extraction returns. \<open>'n\<close> is what stands for
  the clone: an element as a value, or the address of an element in a store.
\<close>

record 'n extracted =
  checked :: "bool option"
  clone :: 'n

text \<open>
  The mdast node that \<^verbatim>\<open>li\<close> builds; \<open>'c\<close> is the type of mdast flow content, which
  the handler only passes on.
\<close>

record 'c listItem =
  node_type :: string
  spread :: bool
  li_checked :: "bool option"
  li_children :: "'c list"

subsection \<open>JavaScript primitives used by the source\<close>

text \<open>\<^verbatim>\<open>Boolean(x)\<close> on a property lookup.\<close>

fun Boolean :: "prop_value option \<Rightarrow> bool" where
  "Boolean None = False"
| "Boolean (Some PNull) = False"
| "Boolean (Some (PBool b)) = b"
| "Boolean (Some (PNum n)) = (n \<noteq> 0)"
| "Boolean (Some (PStr s)) = (s \<noteq> [])"
| "Boolean (Some (PList xs)) = True"

text \<open>
  The code units that \<^verbatim>\<open>trimStart\<close> removes: ECMAScript WhiteSpace and
  LineTerminator.
\<close>

definition is_white_space :: "code_unit \<Rightarrow> bool" where
  "is_white_space c \<longleftrightarrow>
     c \<in> {0x0009, 0x000A, 0x000B, 0x000C, 0x000D, 0x0020, 0x00A0, 0x1680,
          0x2000, 0x2001, 0x2002, 0x2003, 0x2004, 0x2005, 0x2006, 0x2007,
          0x2008, 0x2009, 0x200A, 0x2028, 0x2029, 0x202F, 0x205F, 0x3000, 0xFEFF}"

definition trimStart :: "js_string \<Rightarrow> js_string" where
  "trimStart s = dropWhile is_white_space s"

text \<open>\<^verbatim>\<open>{...parent, children}\<close>: a new element with the parent's fields and new children.\<close>

definition with_children :: "element \<Rightarrow> node list \<Rightarrow> element" where
  "with_children parent cs = Elem (tagName parent) (properties parent) cs"

subsection \<open>spreadout\<close>

text \<open>
  \<^verbatim>\<open>phrasing\<close> comes from the package hast-util-phrasing; it is a parameter here.
  The \<^verbatim>\<open>while\<close> loop over \<^verbatim>\<open>node.children\<close> is \<open>spreadout_loop\<close>, whose arguments are
  the children from \<^verbatim>\<open>index\<close> on and \<^verbatim>\<open>seenFlow\<close>.
\<close>

fun spreadout :: "(element \<Rightarrow> bool) \<Rightarrow> element \<Rightarrow> bool"
  and spreadout_loop :: "(element \<Rightarrow> bool) \<Rightarrow> node list \<Rightarrow> bool \<Rightarrow> bool" where
  "spreadout phrasing (Elem tag props cs) = spreadout_loop phrasing cs False"
| "spreadout_loop phrasing [] seenFlow = False"
| "spreadout_loop phrasing (Element child # rest) seenFlow =
     (if phrasing child then spreadout_loop phrasing rest seenFlow
      else if tagName child = ''p'' \<or> seenFlow \<or> spreadout phrasing child then True
      else spreadout_loop phrasing rest True)"
| "spreadout_loop phrasing (Text v # rest) seenFlow = spreadout_loop phrasing rest seenFlow"
| "spreadout_loop phrasing (Comment v # rest) seenFlow = spreadout_loop phrasing rest seenFlow"

subsection \<open>extractLeadingCheckbox\<close>

text \<open>
  The first test of the loop on \<^verbatim>\<open>candidate\<close>: an \<^verbatim>\<open>input\<close> element with properties
  whose \<^verbatim>\<open>type\<close> is the string \<^verbatim>\<open>checkbox\<close> or \<^verbatim>\<open>radio\<close>.
\<close>

definition is_checkbox :: "element \<Rightarrow> bool" where
  "is_checkbox candidate \<longleftrightarrow>
     tagName candidate = ''input'' \<and>
     (case properties candidate of
        None \<Rightarrow> False
      | Some props \<Rightarrow>
          map_of props ''type'' = Some (PStr ''checkbox'') \<or>
          map_of props ''type'' = Some (PStr ''radio''))"

definition checked_of :: "element \<Rightarrow> bool" where
  "checked_of candidate =
     (case properties candidate of
        None \<Rightarrow> False
      | Some props \<Rightarrow> Boolean (map_of props ''checked''))"

text \<open>
  The \<^verbatim>\<open>for\<close> loop over \<^verbatim>\<open>parents\<close>, innermost first, with the variable \<^verbatim>\<open>clone\<close>
  as the accumulator \<open>cur\<close> and the sliced array \<^verbatim>\<open>children\<close> as \<open>kids\<close>.
  \<^verbatim>\<open>children[0].type\<close> on an empty array reads a property of \<^verbatim>\<open>undefined\<close>, which
  raises a TypeError. The source compares references in \<^verbatim>\<open>clone !== node\<close>; here values
  are compared. Both tests fail in the first round, where \<^verbatim>\<open>clone\<close> is \<^verbatim>\<open>node\<close>, and
  both hold in every later round, where the clone is a new object and, as a value, smaller
  than every member of \<^verbatim>\<open>parents\<close> (lemma \<open>rebuild_wrap\<close>). The model on a store
  below compares addresses.
\<close>

fun rebuild :: "element \<Rightarrow> element \<Rightarrow> element list \<Rightarrow> error + element" where
  "rebuild node cur [] = Inr cur"
| "rebuild node cur (parent # parents) =
     (let kids = drop 1 (children parent) in
      if cur \<noteq> node then
        rebuild node (with_children parent (Element cur # kids)) parents
      else
        (case kids of
           [] \<Rightarrow> Inl TypeError
         | Text v # rest \<Rightarrow>
             (let newValue = trimStart v in
              if newValue \<noteq> [] then
                rebuild node (with_children parent (Text newValue # rest)) parents
              else rebuild node (with_children parent rest) parents)
         | _ \<Rightarrow> rebuild node (with_children parent kids) parents))"

text \<open>
  The \<^verbatim>\<open>while\<close> loop. \<^verbatim>\<open>parents\<close> is never empty: it is \<open>p0 # ps\<close>. Its guard
  \<^verbatim>\<open>parents[0].children\<close> holds for every element (an array is truthy).
\<close>

lemma size_child:
  "Element c \<in> set (children p) \<Longrightarrow> size c < size p"
proof (cases p)
  case (Elem t pr cs)
  assume "Element c \<in> set (children p)"
  then have "Element c \<in> set cs" using Elem by simp
  then have "size (Element c) \<le> size_list size cs"
    by (simp add: size_list_estimation')
  then show ?thesis using Elem by simp
qed

function descend ::
  "(element \<Rightarrow> bool) \<Rightarrow> element \<Rightarrow> element \<Rightarrow> element list \<Rightarrow> error + element extracted" where
  "descend phrasing node p0 ps =
     (case children p0 of
        Element candidate # _ \<Rightarrow>
          if is_checkbox candidate then
            (case rebuild node node (p0 # ps) of
               Inl e \<Rightarrow> Inl e
             | Inr c \<Rightarrow> Inr \<lparr>checked = Some (checked_of candidate), clone = c\<rparr>)
          else if tagName candidate = ''p'' \<or> phrasing candidate then
            descend phrasing node candidate (p0 # ps)
          else Inr \<lparr>checked = None, clone = node\<rparr>
      | _ \<Rightarrow> Inr \<lparr>checked = None, clone = node\<rparr>)"
  by pat_completeness auto
termination
  by (relation "measure (\<lambda>(phrasing, node, p0, ps). size p0)") (auto intro: size_child)

definition extractLeadingCheckbox :: "(element \<Rightarrow> bool) \<Rightarrow> element \<Rightarrow> error + element extracted" where
  "extractLeadingCheckbox phrasing node = descend phrasing node node []"

declare descend.simps [simp del]

subsection \<open>The list-item converter\<close>

text \<open>
  \<^verbatim>\<open>state.all\<close>, \<^verbatim>\<open>state.toFlow\<close> and \<^verbatim>\<open>state.patch\<close> belong to the surrounding
  engine. They are parameters, and since they may have effects each takes and returns
  the engine's state \<open>'w\<close>. \<^verbatim>\<open>patch\<close> returns nothing: the position it attaches to its
  target is part of \<open>'w\<close>.
  A TypeError raised by the extraction leaves \<^verbatim>\<open>li\<close> before any of them is called.
\<close>

record ('x, 'c, 'w) state =
  all :: "element \<Rightarrow> 'w \<Rightarrow> 'x \<times> 'w"
  toFlow :: "'x \<Rightarrow> 'w \<Rightarrow> 'c list \<times> 'w"
  patch :: "element \<Rightarrow> 'c listItem \<Rightarrow> 'w \<Rightarrow> 'w"

definition li ::
  "(element \<Rightarrow> bool) \<Rightarrow> ('x, 'c, 'w) state \<Rightarrow> element \<Rightarrow> 'w \<Rightarrow>
     (error + 'c listItem) \<times> 'w" where
  "li phrasing st node w =
     (case extractLeadingCheckbox phrasing node of
        Inl e \<Rightarrow> (Inl e, w)
      | Inr r \<Rightarrow>
          (let spread = spreadout phrasing (clone r);
               (xs, w1) = all st (clone r) w;
               (children, w2) = toFlow st xs w1;
               result = \<lparr>node_type = ''listItem'', spread = spread,
                          li_checked = checked r, li_children = children\<rparr>;
               w3 = patch st (clone r) result w2
           in (Inr result, w3)))"

text \<open>
  To observe which capabilities a call uses, and in which order, the state of the engine
  can be the log of the calls made so far: \<open>logging f g\<close> converts with the pure
  functions \<open>f\<close> and \<open>g\<close> and appends one event per call.
\<close>

datatype ('x, 'c) event =
    CallAll element
  | CallToFlow 'x
  | CallPatch element "'c listItem"

definition logging :: "(element \<Rightarrow> 'x) \<Rightarrow> ('x \<Rightarrow> 'c list) \<Rightarrow> ('x, 'c, ('x, 'c) event list) state" where
  "logging f g =
     \<lparr>all = (\<lambda>e w. (f e, w @ [CallAll e])),
      toFlow = (\<lambda>xs w. (g xs, w @ [CallToFlow xs])),
      patch = (\<lambda>src tgt w. w @ [CallPatch src tgt])\<rparr>"

subsection \<open>extractLeadingCheckbox on a store\<close>

text \<open>
  The claims about object identity and about writes need the objects themselves. A store
  is the list of the objects allocated so far, an address is an index into it, and
  allocation appends. Elements, texts, comments and arrays are objects; an element refers
  to the array of its children, an array to its members. Properties are kept as values:
  the source only reads them and copies the reference.
\<close>

type_synonym addr = nat

datatype obj =
    ElementObj string "properties option" addr
  | TextObj js_string
  | CommentObj js_string
  | ArrayObj "addr list"

type_synonym store = "obj list"

definition lookup :: "store \<Rightarrow> addr \<Rightarrow> obj option" where
  "lookup h a = (if a < length h then Some (h ! a) else None)"

definition alloc :: "store \<Rightarrow> obj \<Rightarrow> addr \<times> store" where
  "alloc h ob = (length h, h @ [ob])"

definition array_at :: "store \<Rightarrow> addr \<Rightarrow> addr list option" where
  "array_at h a = (case lookup h a of Some (ArrayObj xs) \<Rightarrow> Some xs | _ \<Rightarrow> None)"

text \<open>
  The array operations of the source: \<^verbatim>\<open>slice(1)\<close> allocates a new array,
  \<^verbatim>\<open>unshift\<close>, \<^verbatim>\<open>shift\<close> and the assignment to index 0 write to the array they are
  called on. \<open>first_of\<close> reads index 0, \<open>None\<close> being \<^verbatim>\<open>undefined\<close>.
\<close>

definition slice1 :: "store \<Rightarrow> addr \<Rightarrow> (addr \<times> store) option" where
  "slice1 h a = (case array_at h a of None \<Rightarrow> None | Some xs \<Rightarrow> Some (alloc h (ArrayObj (drop 1 xs))))"

definition unshift :: "store \<Rightarrow> addr \<Rightarrow> addr \<Rightarrow> store" where
  "unshift h a x = (case array_at h a of None \<Rightarrow> h | Some xs \<Rightarrow> h[a := ArrayObj (x # xs)])"

definition shift :: "store \<Rightarrow> addr \<Rightarrow> store" where
  "shift h a = (case array_at h a of None \<Rightarrow> h | Some xs \<Rightarrow> h[a := ArrayObj (drop 1 xs)])"

definition set_first :: "store \<Rightarrow> addr \<Rightarrow> addr \<Rightarrow> store" where
  "set_first h a x = (case array_at h a of None \<Rightarrow> h | Some xs \<Rightarrow> h[a := ArrayObj (x # drop 1 xs)])"

definition first_of :: "store \<Rightarrow> addr \<Rightarrow> addr option" where
  "first_of h a = (case array_at h a of Some (x # _) \<Rightarrow> Some x | _ \<Rightarrow> None)"

text \<open>The test on \<^verbatim>\<open>candidate\<close> and the reading of its state, on the store.\<close>

definition is_checkbox_s :: "store \<Rightarrow> addr \<Rightarrow> bool" where
  "is_checkbox_s h candidate =
     (case lookup h candidate of
        Some (ElementObj tag (Some props) ca) \<Rightarrow>
          tag = ''input'' \<and>
          (map_of props ''type'' = Some (PStr ''checkbox'') \<or>
           map_of props ''type'' = Some (PStr ''radio''))
      | _ \<Rightarrow> False)"

definition checked_of_s :: "store \<Rightarrow> addr \<Rightarrow> bool" where
  "checked_of_s h candidate =
     (case lookup h candidate of
        Some (ElementObj tag (Some props) ca) \<Rightarrow> Boolean (map_of props ''checked'')
      | _ \<Rightarrow> False)"

text \<open>
  One round of the \<^verbatim>\<open>for\<close> loop: it returns the new value of \<^verbatim>\<open>clone\<close>, or the
  TypeError, and the store after the round.
\<close>

definition for_body :: "addr \<Rightarrow> addr \<Rightarrow> addr \<Rightarrow> store \<Rightarrow> (error + addr) \<times> store" where
  "for_body node cur parent h =
     (case lookup h parent of
        Some (ElementObj tag props ca) \<Rightarrow>
          (case slice1 h ca of
             None \<Rightarrow> (Inl TypeError, h)
           | Some (kids, h1) \<Rightarrow>
               if cur \<noteq> node then
                 (let h2 = unshift h1 kids cur;
                      (c, h3) = alloc h2 (ElementObj tag props kids)
                  in (Inr c, h3))
               else
                 (case first_of h1 kids of
                    None \<Rightarrow> (Inl TypeError, h1)
                  | Some x \<Rightarrow>
                      (case lookup h1 x of
                         Some (TextObj v) \<Rightarrow>
                           (let newValue = trimStart v in
                            if newValue \<noteq> [] then
                              (let (t, h2) = alloc h1 (TextObj newValue);
                                   h3 = set_first h2 kids t;
                                   (c, h4) = alloc h3 (ElementObj tag props kids)
                               in (Inr c, h4))
                            else
                              (let h2 = shift h1 kids;
                                   (c, h3) = alloc h2 (ElementObj tag props kids)
                               in (Inr c, h3)))
                       | Some ob \<Rightarrow>
                           (let (c, h2) = alloc h1 (ElementObj tag props kids)
                            in (Inr c, h2))
                       | None \<Rightarrow> (Inl TypeError, h1))))
      | _ \<Rightarrow> (Inl TypeError, h))"

fun rebuild_s :: "addr \<Rightarrow> addr \<Rightarrow> addr list \<Rightarrow> store \<Rightarrow> (error + addr) \<times> store" where
  "rebuild_s node cur [] h = (Inr cur, h)"
| "rebuild_s node cur (parent # parents) h =
     (case for_body node cur parent h of
        (Inl e, h') \<Rightarrow> (Inl e, h')
      | (Inr c, h') \<Rightarrow> rebuild_s node c parents h')"

text \<open>
  The \<^verbatim>\<open>while\<close> loop. A store can hold a cycle of first children, on which the loop
  does not end, so every round uses one unit of fuel and \<open>None\<close> says that the fuel
  ran out. The guard \<^verbatim>\<open>parents[0].children\<close> fails on an object that is not an element.
\<close>

fun descend_s ::
  "nat \<Rightarrow> (store \<Rightarrow> addr \<Rightarrow> bool) \<Rightarrow> addr \<Rightarrow> addr \<Rightarrow> addr list \<Rightarrow> store \<Rightarrow>
     ((error + addr extracted) \<times> store) option" where
  "descend_s 0 phrasing node p0 ps h = None"
| "descend_s (Suc fuel) phrasing node p0 ps h =
     (case lookup h p0 of
        Some (ElementObj tag props ca) \<Rightarrow>
          (case first_of h ca of
             Some candidate \<Rightarrow>
               (case lookup h candidate of
                  Some (ElementObj ctag cprops cca) \<Rightarrow>
                    if is_checkbox_s h candidate then
                      (case rebuild_s node node (p0 # ps) h of
                         (Inl e, h') \<Rightarrow> Some (Inl e, h')
                       | (Inr c, h') \<Rightarrow>
                           Some (Inr \<lparr>checked = Some (checked_of_s h candidate), clone = c\<rparr>, h'))
                    else if ctag = ''p'' \<or> phrasing h candidate then
                      descend_s fuel phrasing node candidate (p0 # ps) h
                    else Some (Inr \<lparr>checked = None, clone = node\<rparr>, h)
                | _ \<Rightarrow> Some (Inr \<lparr>checked = None, clone = node\<rparr>, h))
           | None \<Rightarrow> Some (Inr \<lparr>checked = None, clone = node\<rparr>, h))
      | _ \<Rightarrow> Some (Inr \<lparr>checked = None, clone = node\<rparr>, h))"

definition extractLeadingCheckbox_s ::
  "nat \<Rightarrow> (store \<Rightarrow> addr \<Rightarrow> bool) \<Rightarrow> addr \<Rightarrow> store \<Rightarrow> ((error + addr extracted) \<times> store) option" where
  "extractLeadingCheckbox_s fuel phrasing node h = descend_s fuel phrasing node node [] h"

subsection \<open>spreadout on a store\<close>

text \<open>
  The loop reads \<^verbatim>\<open>node.children.length\<close> and \<^verbatim>\<open>node.children[index]\<close> in every round.
  The function takes the store and returns it, as every function on a store does; no
  operation of the source writes to it. Fuel is used by every round and every call.
\<close>

fun spreadout_s ::
    "nat \<Rightarrow> (store \<Rightarrow> addr \<Rightarrow> bool) \<Rightarrow> addr \<Rightarrow> store \<Rightarrow> ((error + bool) \<times> store) option"
  and spreadout_loop_s ::
    "nat \<Rightarrow> (store \<Rightarrow> addr \<Rightarrow> bool) \<Rightarrow> addr \<Rightarrow> nat \<Rightarrow> bool \<Rightarrow> store \<Rightarrow>
       ((error + bool) \<times> store) option" where
  "spreadout_s 0 phrasing node h = None"
| "spreadout_s (Suc fuel) phrasing node h = spreadout_loop_s fuel phrasing node 0 False h"
| "spreadout_loop_s 0 phrasing node index seenFlow h = None"
| "spreadout_loop_s (Suc fuel) phrasing node index seenFlow h =
     (case lookup h node of
        Some (ElementObj tag props ca) \<Rightarrow>
          (case array_at h ca of
             None \<Rightarrow> Some (Inl TypeError, h)
           | Some xs \<Rightarrow>
               if index < length xs then
                 (let child = xs ! index in
                  case lookup h child of
                    None \<Rightarrow> Some (Inl TypeError, h)
                  | Some (ElementObj ctag cprops cca) \<Rightarrow>
                      if phrasing h child then
                        spreadout_loop_s fuel phrasing node (Suc index) seenFlow h
                      else if ctag = ''p'' \<or> seenFlow then Some (Inr True, h)
                      else
                        (case spreadout_s fuel phrasing child h of
                           None \<Rightarrow> None
                         | Some (Inl e, h1) \<Rightarrow> Some (Inl e, h1)
                         | Some (Inr True, h1) \<Rightarrow> Some (Inr True, h1)
                         | Some (Inr False, h1) \<Rightarrow>
                             spreadout_loop_s fuel phrasing node (Suc index) True h1)
                  | Some ob \<Rightarrow> spreadout_loop_s fuel phrasing node (Suc index) seenFlow h)
               else Some (Inr False, h))
      | _ \<Rightarrow> Some (Inl TypeError, h))"

subsection \<open>Concrete inputs\<close>

definition checkbox_checked :: element where
  "checkbox_checked =
     Elem ''input'' (Some [(''type'', PStr ''checkbox''), (''checked'', PBool True)]) []"

definition checkbox_plain :: element where
  "checkbox_plain = Elem ''input'' (Some [(''type'', PStr ''checkbox'')]) []"

definition radio_plain :: element where
  "radio_plain = Elem ''input'' (Some [(''type'', PStr ''radio'')]) []"

definition two_boxes :: element where
  "two_boxes =
     Elem ''li'' (Some []) [Element checkbox_plain, Element checkbox_checked, Text (ascii '' x'')]"

text \<open>A phrasing predicate by tag name, for evaluating examples.\<close>

definition phrasing_tags :: "element \<Rightarrow> bool" where
  "phrasing_tags e \<longleftrightarrow>
     tagName e \<in> set [''a'', ''b'', ''code'', ''em'', ''i'', ''input'', ''span'', ''strong'']"

text \<open>The same predicate on a store.\<close>

definition phrasing_tags_s :: "store \<Rightarrow> addr \<Rightarrow> bool" where
  "phrasing_tags_s h a =
     (case lookup h a of
        Some (ElementObj tag props ca) \<Rightarrow>
          tag \<in> set [''a'', ''b'', ''code'', ''em'', ''i'', ''input'', ''span'', ''strong'']
      | _ \<Rightarrow> False)"

text \<open>A store that holds \<^verbatim>\<open><li><p><input type="checkbox"> text</p><div></div></li>\<close> at address 8.\<close>

definition store1 :: store where
  "store1 = [ArrayObj [], ElementObj ''input'' (Some [(''type'', PStr ''checkbox'')]) 0,
             TextObj (ascii '' text''),
             ArrayObj [1, 2], ElementObj ''p'' (Some []) 3,
             ArrayObj [], ElementObj ''div'' None 5,
             ArrayObj [4, 6], ElementObj ''li'' (Some []) 7]"

text \<open>The store after the extraction from \<open>store1\<close> at address 8: five new objects.\<close>

definition store1_after :: store where
  "store1_after =
     store1 @ [ArrayObj [10], TextObj (ascii ''text''), ElementObj ''p'' (Some []) 9,
               ArrayObj [11, 6], ElementObj ''li'' (Some []) 12]"

text \<open>A store that holds \<^verbatim>\<open><li>a<input type="checkbox"></li>\<close> at address 4.\<close>

definition store2 :: store where
  "store2 = [TextObj (ascii ''a''), ArrayObj [],
             ElementObj ''input'' (Some [(''type'', PStr ''checkbox'')]) 1,
             ArrayObj [0, 2], ElementObj ''li'' (Some []) 3]"

subsection \<open>A recursive view of the extraction\<close>

text \<open>
  \<open>cleanup\<close> is what the first round of the \<^verbatim>\<open>for\<close> loop does to the sliced children;
  \<open>wrap\<close> is what the later rounds do; \<open>extract_rec\<close> recurses on the first child
  instead of keeping a list of parents. \<open>chain\<close> is the invariant of \<^verbatim>\<open>parents\<close>:
  every member is the first child of the next one and the last member is \<^verbatim>\<open>node\<close>.
  Lemma \<open>extract_rec_eq\<close> below shows that the loops of the source compute \<open>extract_rec\<close>.
\<close>

fun cleanup :: "node list \<Rightarrow> error + node list" where
  "cleanup [] = Inl TypeError"
| "cleanup (Text v # rest) = Inr (if trimStart v \<noteq> [] then Text (trimStart v) # rest else rest)"
| "cleanup kids = Inr kids"

function extract_rec :: "(element \<Rightarrow> bool) \<Rightarrow> element \<Rightarrow> error + (bool \<times> element) option" where
  "extract_rec phrasing e =
     (case children e of
        Element c # rest \<Rightarrow>
          if is_checkbox c then
            (case cleanup rest of
               Inl err \<Rightarrow> Inl err
             | Inr kids \<Rightarrow> Inr (Some (checked_of c, with_children e kids)))
          else if tagName c = ''p'' \<or> phrasing c then
            (case extract_rec phrasing c of
               Inl err \<Rightarrow> Inl err
             | Inr None \<Rightarrow> Inr None
             | Inr (Some (b, c')) \<Rightarrow> Inr (Some (b, with_children e (Element c' # rest))))
          else Inr None
      | _ \<Rightarrow> Inr None)"
  by pat_completeness auto
termination
  by (relation "measure (\<lambda>(phrasing, e). size e)") (auto intro: size_child)

declare extract_rec.simps [simp del]

fun wrap :: "element \<Rightarrow> element list \<Rightarrow> element" where
  "wrap cur [] = cur"
| "wrap cur (q # qs) = wrap (with_children q (Element cur # drop 1 (children q))) qs"

fun chain :: "element \<Rightarrow> element list \<Rightarrow> bool" where
  "chain node [] = False"
| "chain node [p] = (p = node)"
| "chain node (p # q # qs) = ((\<exists>rest. children q = Element p # rest) \<and> chain node (q # qs))"

subsection \<open>Vocabulary of the specification\<close>

text \<open>
  The specification speaks of the spine: the path from the node through first children
  that are wrappers, a wrapper being an element that is a paragraph or phrasing and is not
  itself the control looked for. \<open>spine_at phrasing k e\<close> is the element reached from
  \<open>e\<close> after \<open>k\<close> wrappers, \<open>replace_at k e q\<close> is \<open>e\<close> with the element at depth \<open>k\<close>
  of its first-child path replaced by \<open>q\<close> and every other child kept, and
  \<open>has_leading_checkbox\<close> says that a control is reachable along the spine.
\<close>

definition first_child :: "element \<Rightarrow> element option" where
  "first_child e = (case children e of Element c # _ \<Rightarrow> Some c | _ \<Rightarrow> None)"

definition wrapper :: "(element \<Rightarrow> bool) \<Rightarrow> element \<Rightarrow> bool" where
  "wrapper phrasing c \<longleftrightarrow> \<not> is_checkbox c \<and> (tagName c = ''p'' \<or> phrasing c)"

fun spine_at :: "(element \<Rightarrow> bool) \<Rightarrow> nat \<Rightarrow> element \<Rightarrow> element option" where
  "spine_at phrasing 0 e = Some e"
| "spine_at phrasing (Suc k) e =
     (case first_child e of
        None \<Rightarrow> None
      | Some c \<Rightarrow> if wrapper phrasing c then spine_at phrasing k c else None)"

fun replace_at :: "nat \<Rightarrow> element \<Rightarrow> element \<Rightarrow> element" where
  "replace_at 0 e q = q"
| "replace_at (Suc k) e q =
     (case children e of
        Element c # rest \<Rightarrow> with_children e (Element (replace_at k c q) # rest)
      | _ \<Rightarrow> e)"

lemma first_child_size: "first_child e = Some c \<Longrightarrow> size c < size e"
  by (auto simp: first_child_def split: list.splits node.splits intro: size_child)

function has_leading_checkbox :: "(element \<Rightarrow> bool) \<Rightarrow> element \<Rightarrow> bool" where
  "has_leading_checkbox phrasing e =
     (case first_child e of
        None \<Rightarrow> False
      | Some c \<Rightarrow>
          is_checkbox c \<or> ((tagName c = ''p'' \<or> phrasing c) \<and> has_leading_checkbox phrasing c))"
  by pat_completeness auto
termination
  by (relation "measure (\<lambda>(phrasing, e). size e)") (auto intro: first_child_size)

declare has_leading_checkbox.simps [simp del]

text \<open>
  For the classification: the children that the loop of \<^verbatim>\<open>spreadout\<close> does not skip
  (\<open>flow_elements\<close>), a direct child with the paragraph tag, and content that is
  entirely phrasing. \<open>spread_by_spec\<close> is the condition of the specification: a
  paragraph child, or two or more flow children, or exactly one flow child that satisfies
  the condition in turn.
\<close>

fun flow_elements :: "(element \<Rightarrow> bool) \<Rightarrow> node list \<Rightarrow> element list" where
  "flow_elements phrasing [] = []"
| "flow_elements phrasing (Element c # ns) =
     (if phrasing c then flow_elements phrasing ns else c # flow_elements phrasing ns)"
| "flow_elements phrasing (Text v # ns) = flow_elements phrasing ns"
| "flow_elements phrasing (Comment v # ns) = flow_elements phrasing ns"

definition paragraph_child :: "element \<Rightarrow> bool" where
  "paragraph_child e \<longleftrightarrow>
     (\<exists>n \<in> set (children e). case n of Element c \<Rightarrow> tagName c = ''p'' | _ \<Rightarrow> False)"

definition phrasing_content :: "(element \<Rightarrow> bool) \<Rightarrow> node \<Rightarrow> bool" where
  "phrasing_content phrasing n =
     (case n of Element c \<Rightarrow> phrasing c | Text v \<Rightarrow> True | Comment v \<Rightarrow> False)"

lemma flow_elements_subset: "c \<in> set (flow_elements phrasing ns) \<Longrightarrow> Element c \<in> set ns"
  by (induction phrasing ns rule: flow_elements.induct) (auto split: if_splits)

lemma flow_single_size: "flow_elements phrasing (children e) = [c] \<Longrightarrow> size c < size e"
  using flow_elements_subset [of c phrasing "children e"] by (simp add: size_child)

function spread_by_spec :: "(element \<Rightarrow> bool) \<Rightarrow> element \<Rightarrow> bool" where
  "spread_by_spec phrasing e \<longleftrightarrow>
     paragraph_child e \<or>
     2 \<le> length (flow_elements phrasing (children e)) \<or>
     (case flow_elements phrasing (children e) of
        [c] \<Rightarrow> spread_by_spec phrasing c
      | _ \<Rightarrow> False)"
  by pat_completeness auto
termination
  by (relation "measure (\<lambda>(phrasing, e). size e)") (auto intro: flow_single_size)

declare spread_by_spec.simps [simp del]

text \<open>
  \<open>repr h a e\<close>: the object at address \<open>a\<close> of the store \<open>h\<close> is the element \<open>e\<close>,
  children included.
\<close>

fun repr :: "store \<Rightarrow> addr \<Rightarrow> element \<Rightarrow> bool"
  and repr_node :: "store \<Rightarrow> addr \<Rightarrow> node \<Rightarrow> bool" where
  "repr h a (Elem tag props cs) =
     (case lookup h a of
        Some (ElementObj tag' props' ca) \<Rightarrow>
          tag' = tag \<and> props' = props \<and>
          (case array_at h ca of Some xs \<Rightarrow> list_all2 (repr_node h) xs cs | None \<Rightarrow> False)
      | _ \<Rightarrow> False)"
| "repr_node h a (Element e) = repr h a e"
| "repr_node h a (Text v) = (lookup h a = Some (TextObj v))"
| "repr_node h a (Comment v) = (lookup h a = Some (CommentObj v))"

text \<open>
  The phrasing predicate on a store and the one on values are the same predicate when
  they agree on every element that a store represents.
\<close>

definition agree :: "(store \<Rightarrow> addr \<Rightarrow> bool) \<Rightarrow> (element \<Rightarrow> bool) \<Rightarrow> bool" where
  "agree phrasing_s phrasing \<longleftrightarrow> (\<forall>h a e. repr h a e \<longrightarrow> phrasing_s h a = phrasing e)"

text \<open>
  Sharing. \<open>copy_of h h' p c\<close>: the object at \<open>c\<close> in the store \<open>h'\<close> after the call is an
  element allocated by the call, with a children array allocated by the call, and with the
  tag name and the properties of the element at \<open>p\<close> in the store \<open>h\<close> before the call;
  the result is the two arrays of children. \<open>rebuilt h h' k p c\<close> follows the first
  children of both elements for \<open>k\<close> steps: at each step the clone is such a copy and all
  its children but the first are the very addresses that the original has; at the last
  step (\<open>innermost_kids\<close>) the children of the clone are those of the original without
  the first, where a text that comes next is dropped or replaced by a text allocated by
  the call. \<open>chain_s\<close> is the invariant of \<^verbatim>\<open>parents\<close> on a store.
\<close>

definition copy_of :: "store \<Rightarrow> store \<Rightarrow> addr \<Rightarrow> addr \<Rightarrow> (addr list \<times> addr list) option" where
  "copy_of h h' p c =
     (case (lookup h p, lookup h' c) of
        (Some (ElementObj tag props ca), Some (ElementObj tag' props' ca')) \<Rightarrow>
          if tag' = tag \<and> props' = props \<and> length h \<le> c \<and> length h \<le> ca' then
            (case (array_at h ca, array_at h' ca') of
               (Some xs, Some ys) \<Rightarrow> Some (xs, ys)
             | _ \<Rightarrow> None)
          else None
      | _ \<Rightarrow> None)"

definition innermost_kids :: "store \<Rightarrow> store \<Rightarrow> addr list \<Rightarrow> addr list \<Rightarrow> bool" where
  "innermost_kids h h' xs ys =
     (case xs of
        cb # t # rest \<Rightarrow>
          (case lookup h t of
             Some (TextObj v) \<Rightarrow>
               if trimStart v = [] then ys = rest
               else (case ys of
                       t' # ys' \<Rightarrow>
                         length h \<le> t' \<and> lookup h' t' = Some (TextObj (trimStart v)) \<and> ys' = rest
                     | [] \<Rightarrow> False)
           | _ \<Rightarrow> ys = t # rest)
      | _ \<Rightarrow> False)"

fun rebuilt :: "store \<Rightarrow> store \<Rightarrow> nat \<Rightarrow> addr \<Rightarrow> addr \<Rightarrow> bool" where
  "rebuilt h h' 0 p c =
     (case copy_of h h' p c of
        Some (xs, ys) \<Rightarrow> innermost_kids h h' xs ys
      | None \<Rightarrow> False)"
| "rebuilt h h' (Suc k) p c =
     (case copy_of h h' p c of
        Some (x # rest, y # rest') \<Rightarrow> rest' = rest \<and> rebuilt h h' k x y
      | _ \<Rightarrow> False)"

fun chain_s :: "store \<Rightarrow> addr list \<Rightarrow> bool" where
  "chain_s h (p # q # qs) =
     ((case lookup h q of
         Some (ElementObj tag props ca) \<Rightarrow> first_of h ca = Some p
       | _ \<Rightarrow> False) \<and> chain_s h (q # qs))"
| "chain_s h ps = True"

section \<open>Properties\<close>

subsection \<open>The loops of the source compute the recursive view\<close>

lemma chain_size: "chain node (p # ps) \<Longrightarrow> size p \<le> size node"
proof (induction ps arbitrary: p)
  case Nil then show ?case by simp
next
  case (Cons q qs)
  then have "size q \<le> size node" by simp
  moreover from Cons.prems have "size p < size q" by (auto intro: size_child)
  ultimately show ?case by simp
qed

lemma size_with_children [simp]: "size (with_children e cs) = size_list size cs + 1"
  by (simp add: with_children_def)

lemma size_children: "size e = size_list size (children e) + 1"
  by (cases e) simp

lemma rebuild_wrap:
  "chain node (p # ps) \<Longrightarrow> size cur < size p \<Longrightarrow> rebuild node cur ps = Inr (wrap cur ps)"
proof (induction ps arbitrary: p cur)
  case Nil then show ?case by simp
next
  case (Cons q qs)
  from Cons.prems obtain rest where q: "children q = Element p # rest" and ch: "chain node (q # qs)"
    by auto
  from Cons.prems have "size cur < size q" using q by (simp add: size_children [of q])
  moreover have "size q \<le> size node" using ch by (rule chain_size)
  ultimately have ne: "cur \<noteq> node" by auto
  have "size (with_children q (Element cur # drop 1 (children q))) < size q"
    using Cons.prems(2) q by (simp add: size_children [of q])
  from Cons.IH [OF ch this] ne show ?case by simp
qed


lemma cleanup_size: "cleanup rest = Inr kids \<Longrightarrow> size_list size kids \<le> size_list size rest"
  by (induction rest rule: cleanup.induct) (auto split: if_splits)

lemma rebuild_first:
  "rebuild node node (p0 # ps) =
     (case cleanup (drop 1 (children p0)) of
        Inl e \<Rightarrow> Inl e
      | Inr kids \<Rightarrow> rebuild node (with_children p0 kids) ps)"
  by (cases "drop 1 (children p0)" rule: cleanup.cases) (simp_all add: Let_def)

lemma descend_rec:
  "chain node (p0 # ps) \<Longrightarrow>
   descend phrasing node p0 ps =
     (case extract_rec phrasing p0 of
        Inl e \<Rightarrow> Inl e
      | Inr None \<Rightarrow> Inr \<lparr>checked = None, clone = node\<rparr>
      | Inr (Some (b, c')) \<Rightarrow> Inr \<lparr>checked = Some b, clone = wrap c' ps\<rparr>)"
proof (induction phrasing node p0 ps rule: descend.induct)
  case (1 phrasing node p0 ps)
  show ?case
  proof (cases "children p0")
    case Nil
    then show ?thesis by (simp add: descend.simps [of _ _ p0] extract_rec.simps [of _ p0])
  next
    case (Cons n rest)
    show ?thesis
    proof (cases n)
      case (Element candidate)
      note kids = Cons [unfolded Element]
      show ?thesis
      proof (cases "is_checkbox candidate")
        case True
        show ?thesis
        proof (cases "cleanup rest")
          case (Inl e)
          then show ?thesis using True kids
            by (simp add: descend.simps [of _ _ p0] extract_rec.simps [of _ p0] rebuild_first del: rebuild.simps)
        next
          case (Inr ks)
          have "size (with_children p0 ks) < size p0"
            using cleanup_size [OF Inr] kids by (simp add: size_children [of p0])
          from rebuild_wrap [OF "1.prems" this] Inr True kids show ?thesis
            by (simp add: descend.simps [of _ _ p0] extract_rec.simps [of _ p0] rebuild_first del: rebuild.simps)
        qed
      next
        case False
        show ?thesis
        proof (cases "tagName candidate = ''p'' \<or> phrasing candidate")
          case w: True
          have ch: "chain node (candidate # p0 # ps)" using "1.prems" kids by simp
          have "descend phrasing node p0 ps = descend phrasing node candidate (p0 # ps)"
            using False w kids by (simp add: descend.simps [of _ _ p0])
          also note "1.IH" [OF kids refl False w ch]
          finally show ?thesis using False w kids
            by (simp add: extract_rec.simps [of _ p0] split: sum.splits option.splits)
        next
          case nw: False
          then show ?thesis using False kids
            by (simp add: descend.simps [of _ _ p0] extract_rec.simps [of _ p0])
        qed
      qed
    next
      case (Text v)
      then show ?thesis using Cons by (simp add: descend.simps [of _ _ p0] extract_rec.simps [of _ p0])
    next
      case (Comment v)
      then show ?thesis using Cons by (simp add: descend.simps [of _ _ p0] extract_rec.simps [of _ p0])
    qed
  qed
qed

lemma extract_rec_eq:
  "extractLeadingCheckbox phrasing node =
     (case extract_rec phrasing node of
        Inl e \<Rightarrow> Inl e
      | Inr None \<Rightarrow> Inr \<lparr>checked = None, clone = node\<rparr>
      | Inr (Some (b, c')) \<Rightarrow> Inr \<lparr>checked = Some b, clone = c'\<rparr>)"
  unfolding extractLeadingCheckbox_def
  by (simp add: descend_rec split: sum.splits option.splits)

lemma extract_rec_spine:
  "spine_at phrasing k e = Some p \<Longrightarrow> children p = Element cb # rest \<Longrightarrow> is_checkbox cb \<Longrightarrow>
   extract_rec phrasing e =
     (case cleanup rest of
        Inl err \<Rightarrow> Inl err
      | Inr kids \<Rightarrow> Inr (Some (checked_of cb, replace_at k e (with_children p kids))))"
proof (induction k arbitrary: e)
  case 0
  then show ?case by (simp add: extract_rec.simps [of _ p] split: sum.splits)
next
  case (Suc k)
  from Suc.prems(1) obtain c where c: "first_child e = Some c" "wrapper phrasing c"
    and sp: "spine_at phrasing k c = Some p"
    by (auto split: option.splits if_splits)
  from c(1) obtain others where kids: "children e = Element c # others"
    by (auto simp: first_child_def split: list.splits node.splits)
  from Suc.IH [OF sp Suc.prems(2,3)] c(2) kids show ?case
    by (simp add: extract_rec.simps [of _ e] wrapper_def split: sum.splits)
qed

lemma extract_rec_None:
  "extract_rec phrasing e = Inr None \<longleftrightarrow> \<not> has_leading_checkbox phrasing e"
proof (induction phrasing e rule: extract_rec.induct)
  case (1 phrasing e)
  show ?case
  proof (cases "first_child e")
    case None
    then show ?thesis
      by (auto simp: extract_rec.simps [of _ e] has_leading_checkbox.simps [of _ e] first_child_def
          split: list.splits node.splits)
  next
    case (Some c)
    then obtain others where kids: "children e = Element c # others"
      by (auto simp: first_child_def split: list.splits node.splits)
    show ?thesis
    proof (cases "is_checkbox c")
      case True
      then show ?thesis using Some kids
        by (simp add: extract_rec.simps [of _ e] has_leading_checkbox.simps [of _ e] split: sum.splits)
    next
      case False
      show ?thesis
      proof (cases "tagName c = ''p'' \<or> phrasing c")
        case w: True
        from "1.IH" [OF kids refl False w] False w Some kids show ?thesis
          by (auto simp: extract_rec.simps [of _ e] has_leading_checkbox.simps [of _ e]
              split: sum.splits option.splits)
      next
        case nw: False
        then show ?thesis using False Some kids
          by (simp add: extract_rec.simps [of _ e] has_leading_checkbox.simps [of _ e])
      qed
    qed
  qed
qed

lemma extract_rec_size:
  "extract_rec phrasing e = Inr (Some (b, c')) \<Longrightarrow> size c' < size e"
proof (induction phrasing e arbitrary: b c' rule: extract_rec.induct)
  case (1 phrasing e)
  from "1.prems" obtain c others where kids: "children e = Element c # others"
    by (auto simp: extract_rec.simps [of _ e] split: list.splits node.splits)
  show ?case
  proof (cases "is_checkbox c")
    case True
    with "1.prems" kids obtain ks where ks: "cleanup others = Inr ks" and c': "c' = with_children e ks"
      by (auto simp: extract_rec.simps [of _ e] split: sum.splits)
    from cleanup_size [OF ks] kids c' show ?thesis by (simp add: size_children [of e])
  next
    case False
    with "1.prems" kids have w: "tagName c = ''p'' \<or> phrasing c"
      by (auto simp: extract_rec.simps [of _ e] split: if_splits)
    with "1.prems" kids False obtain d where d: "extract_rec phrasing c = Inr (Some (b, d))"
      and c': "c' = with_children e (Element d # others)"
      by (auto simp: extract_rec.simps [of _ e] split: sum.splits option.splits)
    from "1.IH" [OF kids refl False w d] kids c' show ?thesis by (simp add: size_children [of e])
  qed
qed

lemma replace_at_tag:
  "spine_at phrasing k e = Some p \<Longrightarrow>
   tagName (replace_at k e (with_children p ks)) = tagName e \<and>
   properties (replace_at k e (with_children p ks)) = properties e"
  by (cases k) (auto simp: with_children_def first_child_def split: list.splits node.splits if_splits)

lemma is_checkbox_cong:
  "tagName a = tagName b \<Longrightarrow> properties a = properties b \<Longrightarrow> is_checkbox a = is_checkbox b"
  by (simp add: is_checkbox_def)

lemma has_leading_checkbox_first:
  "first_child e = Some c \<Longrightarrow>
   has_leading_checkbox phrasing e \<longleftrightarrow>
     is_checkbox c \<or> ((tagName c = ''p'' \<or> phrasing c) \<and> has_leading_checkbox phrasing c)"
  by (subst has_leading_checkbox.simps) simp

lemma no_leading_checkbox_replace:
  "spine_at phrasing k e = Some p \<Longrightarrow> \<not> has_leading_checkbox phrasing (with_children p ks) \<Longrightarrow>
   \<not> has_leading_checkbox phrasing (replace_at k e (with_children p ks))"
proof (induction k arbitrary: e)
  case 0
  then show ?case by simp
next
  case (Suc k)
  from Suc.prems(1) obtain c where c: "first_child e = Some c" "wrapper phrasing c"
    and sp: "spine_at phrasing k c = Some p"
    by (auto split: option.splits if_splits)
  from c(1) obtain others where kids: "children e = Element c # others"
    by (auto simp: first_child_def split: list.splits node.splits)
  let ?c' = "replace_at k c (with_children p ks)"
  have "\<not> has_leading_checkbox phrasing ?c'" using Suc.IH [OF sp Suc.prems(2)] .
  moreover have "is_checkbox ?c' = is_checkbox c"
    using replace_at_tag [OF sp] by (intro is_checkbox_cong) simp_all
  then have "\<not> is_checkbox ?c'" using c(2) by (simp add: wrapper_def)
  moreover have "first_child (with_children e (Element ?c' # others)) = Some ?c'"
    by (simp add: first_child_def with_children_def)
  ultimately show ?case using kids
    by (simp add: has_leading_checkbox_first)
qed

subsection \<open>The store\<close>

lemma prefix_update: "prefix h h1 \<Longrightarrow> length h \<le> a \<Longrightarrow> prefix h (h1[a := ob])"
  by (auto simp: prefix_def list_update_append)

lemma prefix_alloc: "prefix h h1 \<Longrightarrow> alloc h1 ob = (a, h2) \<Longrightarrow> prefix h h2 \<and> length h \<le> a"
  by (auto simp: alloc_def prefix_def)

lemma prefix_slice1: "slice1 h ca = Some (kids, h1) \<Longrightarrow> prefix h h1 \<and> kids = length h"
  by (auto simp: slice1_def alloc_def split: option.splits)

lemma prefix_unshift: "prefix h h1 \<Longrightarrow> length h \<le> a \<Longrightarrow> prefix h (unshift h1 a x)"
  by (simp add: unshift_def prefix_update split: option.splits)

lemma prefix_shift: "prefix h h1 \<Longrightarrow> length h \<le> a \<Longrightarrow> prefix h (shift h1 a)"
  by (simp add: shift_def prefix_update split: option.splits)

lemma prefix_set_first: "prefix h h1 \<Longrightarrow> length h \<le> a \<Longrightarrow> prefix h (set_first h1 a x)"
  by (simp add: set_first_def prefix_update split: option.splits)

lemma slice1_Some:
  "slice1 h ca = Some (kids, h1) \<longleftrightarrow>
     (\<exists>xs. array_at h ca = Some xs \<and> kids = length h \<and> h1 = h @ [ArrayObj (drop 1 xs)])"
  by (auto simp: slice1_def alloc_def split: option.splits)

lemma for_body_frame: "for_body node cur parent h = (r, h') \<Longrightarrow> prefix h h'"
  unfolding for_body_def
  by (auto split: option.splits obj.splits if_splits simp: Let_def alloc_def slice1_Some
      intro!: prefix_prefix prefix_unshift prefix_shift prefix_set_first)

lemma rebuild_s_frame: "rebuild_s node cur parents h = (r, h') \<Longrightarrow> prefix h h'"
proof (induction parents arbitrary: cur h)
  case Nil
  then show ?case by simp
next
  case (Cons parent parents)
  show ?case
  proof (cases "for_body node cur parent h")
    case (Pair r1 h1)
    then have p1: "prefix h h1" by (rule for_body_frame)
    show ?thesis
    proof (cases r1)
      case (Inl e)
      with Pair Cons.prems p1 show ?thesis by simp
    next
      case (Inr c)
      with Pair Cons.prems have "rebuild_s node c parents h1 = (r, h')" by simp
      from Cons.IH [OF this] p1 show ?thesis by (rule prefix_order.trans [rotated])
    qed
  qed
qed

lemma descend_s_frame: "descend_s fuel phrasing node p0 ps h = Some (r, h') \<Longrightarrow> prefix h h'"
proof (induction fuel arbitrary: p0 ps)
  case 0
  then show ?case by simp
next
  case (Suc fuel)
  show ?case using Suc.prems
    by (auto split: option.splits obj.splits if_splits prod.splits sum.splits list.splits
        simp del: rebuild_s.simps dest: rebuild_s_frame Suc.IH)
qed


lemma lookup_mono: "prefix h h' \<Longrightarrow> lookup h a = Some ob \<Longrightarrow> lookup h' a = Some ob"
  by (auto simp: lookup_def prefix_def nth_append split: if_splits)

lemma array_at_mono: "prefix h h' \<Longrightarrow> array_at h a = Some xs \<Longrightarrow> array_at h' a = Some xs"
  by (auto simp: array_at_def split: option.splits obj.splits dest: lookup_mono)

lemma repr_elim:
  assumes "repr h a e"
  obtains ca xs where "lookup h a = Some (ElementObj (tagName e) (properties e) ca)"
    "array_at h ca = Some xs" "list_all2 (repr_node h) xs (children e)"
  using assms by (cases e) (auto split: option.splits obj.splits)

lemma repr_intro:
  "lookup h a = Some (ElementObj (tagName e) (properties e) ca) \<Longrightarrow> array_at h ca = Some xs \<Longrightarrow>
   list_all2 (repr_node h) xs (children e) \<Longrightarrow> repr h a e"
  by (cases e) auto

lemma repr_mono:
  "prefix h h' \<Longrightarrow> repr h a e \<Longrightarrow> repr h' a e"
  "prefix h h' \<Longrightarrow> repr_node h b n \<Longrightarrow> repr_node h' b n"
proof (induction e and n arbitrary: a and b)
  case (Elem tag props cs)
  from Elem.prems(2) obtain ca xs where
    l: "lookup h a = Some (ElementObj tag props ca)" and ar: "array_at h ca = Some xs"
    and kids: "list_all2 (repr_node h) xs cs"
    by (auto split: option.splits obj.splits)
  from kids have "list_all2 (repr_node h') xs cs"
    by (rule list.rel_mono_strong) (auto intro: Elem.IH Elem.prems(1))
  with lookup_mono [OF Elem.prems(1) l] array_at_mono [OF Elem.prems(1) ar] show ?case by simp
qed (auto dest: lookup_mono)

text \<open>
  The result of each round of the \<^verbatim>\<open>for\<close> loop, written out; then the refinement: on
  a store that represents a tree, and with fuel above the size of the tree, the loops on
  the store return what the loops on values return, in a store that extends the given one.
\<close>

lemma lookup_append_new [simp]: "lookup (h @ ob # obs) (length h) = Some ob"
  by (simp add: lookup_def)

lemma lookup_append_old: "a < length h \<Longrightarrow> lookup (h @ obs) a = lookup h a"
  by (simp add: lookup_def nth_append)

lemma array_at_append_new [simp]: "array_at (h @ ArrayObj xs # obs) (length h) = Some xs"
  by (simp add: array_at_def)

lemma for_body_later:
  assumes "lookup h parent = Some (ElementObj tag props ca)" "array_at h ca = Some xs" "cur \<noteq> node"
  shows "for_body node cur parent h =
    (Inr (Suc (length h)), h @ [ArrayObj (cur # drop 1 xs), ElementObj tag props (length h)])"
  using assms by (simp add: for_body_def slice1_def alloc_def unshift_def)

lemma for_body_first:
  assumes "lookup h parent = Some (ElementObj tag props ca)" "array_at h ca = Some xs"
  shows "for_body node node parent h =
    (case drop 1 xs of
       [] \<Rightarrow> (Inl TypeError, h @ [ArrayObj []])
     | x # rest \<Rightarrow>
         (case lookup (h @ [ArrayObj (x # rest)]) x of
            Some (TextObj v) \<Rightarrow>
              if trimStart v \<noteq> [] then
                (Inr (Suc (Suc (length h))),
                 h @ [ArrayObj (Suc (length h) # rest), TextObj (trimStart v),
                      ElementObj tag props (length h)])
              else (Inr (Suc (length h)), h @ [ArrayObj rest, ElementObj tag props (length h)])
          | Some (ElementObj t p c) \<Rightarrow>
              (Inr (Suc (length h)), h @ [ArrayObj (x # rest), ElementObj tag props (length h)])
          | Some (CommentObj v) \<Rightarrow>
              (Inr (Suc (length h)), h @ [ArrayObj (x # rest), ElementObj tag props (length h)])
          | Some (ArrayObj ys) \<Rightarrow>
              (Inr (Suc (length h)), h @ [ArrayObj (x # rest), ElementObj tag props (length h)])
          | None \<Rightarrow> (Inl TypeError, h @ [ArrayObj (x # rest)])))"
  using assms
  by (simp add: for_body_def slice1_def alloc_def shift_def set_first_def first_of_def Let_def
      split: list.splits option.splits obj.splits)


lemma lookup_append:
  "lookup (h @ obs) a = (if a < length h then lookup h a else lookup obs (a - length h))"
  by (auto simp: lookup_def nth_append)

lemma lookup_Cons [simp]:
  "lookup (ob # obs) 0 = Some ob"
  "lookup (ob # obs) (Suc i) = lookup obs i"
  "lookup [] i = None"
  by (simp_all add: lookup_def)

lemma lookup_append_Suc [simp]:
  "lookup (h @ obs) (Suc (length h)) = lookup obs (Suc 0)"
  "lookup (h @ obs) (Suc (Suc (length h))) = lookup obs (Suc (Suc 0))"
  by (simp_all add: lookup_append numeral_2_eq_2)

lemma lookup_valid: "lookup h a = Some ob \<Longrightarrow> a < length h"
  by (simp add: lookup_def split: if_splits)

lemma repr_valid: "repr h a e \<Longrightarrow> a < length h"
  by (auto elim!: repr_elim dest: lookup_valid)

lemma repr_node_append: "repr_node h a n \<Longrightarrow> repr_node (h @ obs) a n"
  by (rule repr_mono(2)) simp_all

lemma repr_append: "repr h a e \<Longrightarrow> repr (h @ obs) a e"
  by (rule repr_mono(1)) simp_all

lemma repr_list_append:
  "list_all2 (repr_node h) xs cs \<Longrightarrow> list_all2 (repr_node (h @ obs)) xs cs"
  by (erule list.rel_mono_strong) (rule repr_node_append)

lemma for_body_later_repr:
  assumes par: "repr h parent e" and cur: "repr h cur e'" and ne: "cur \<noteq> node"
  shows "\<exists>c h'. for_body node cur parent h = (Inr c, h') \<and>
           repr h' c (with_children e (Element e' # drop 1 (children e))) \<and>
           length h \<le> c \<and> prefix h h'"
proof -
  from par obtain ca xs where l: "lookup h parent = Some (ElementObj (tagName e) (properties e) ca)"
    and ar: "array_at h ca = Some xs" and kids: "list_all2 (repr_node h) xs (children e)"
    by (rule repr_elim)
  let ?h' = "h @ [ArrayObj (cur # drop 1 xs), ElementObj (tagName e) (properties e) (length h)]"
  have "list_all2 (repr_node ?h') (drop 1 xs) (drop 1 (children e))"
    using kids by (intro repr_list_append list_all2_dropI)
  moreover have "repr ?h' cur e'" using cur by (rule repr_append)
  ultimately have "repr ?h' (Suc (length h)) (with_children e (Element e' # drop 1 (children e)))"
    by (simp add: with_children_def lookup_append_old array_at_def)
  with for_body_later [OF l ar ne] show ?thesis by simp
qed

lemma for_body_first_repr:
  assumes par: "repr h parent e" and ch: "children e = Element cb # rest"
  shows "\<exists>h'. prefix h h' \<and>
           (case cleanup rest of
              Inl err \<Rightarrow> for_body node node parent h = (Inl err, h')
            | Inr kids \<Rightarrow>
                (\<exists>c. for_body node node parent h = (Inr c, h') \<and>
                   repr h' c (with_children e kids) \<and> length h \<le> c))"
proof -
  from par obtain ca xs where l: "lookup h parent = Some (ElementObj (tagName e) (properties e) ca)"
    and ar: "array_at h ca = Some xs" and kids: "list_all2 (repr_node h) xs (children e)"
    by (rule repr_elim)
  from kids ch obtain x xs' where xs: "xs = x # xs'" and rest: "list_all2 (repr_node h) xs' rest"
    by (auto simp: list_all2_Cons2)
  note fb = for_body_first [OF l ar, of node, unfolded xs, simplified]
  show ?thesis
  proof (cases rest)
    case Nil
    with rest fb show ?thesis by simp
  next
    case (Cons n ns)
    with rest obtain y ys where ys: "xs' = y # ys" and y: "repr_node h y n"
      and ns: "list_all2 (repr_node h) ys ns"
      by (auto simp: list_all2_Cons2)
    show ?thesis
    proof (cases n)
      case (Element d)
      with y obtain t p c where "lookup h y = Some (ElementObj t p c)"
        by (auto elim: repr_elim)
      moreover from this have "y < length h" by (rule lookup_valid)
      moreover have "list_all2 (repr_node (h @ [ArrayObj (y # ys), ElementObj (tagName e) (properties e) (length h)])) (y # ys) (n # ns)"
        using y ns by (auto intro: repr_node_append repr_list_append)
      ultimately show ?thesis using fb ys Cons Element
        by (simp add: lookup_append_old with_children_def array_at_def)
    next
      case (Text v)
      with y have ly: "lookup h y = Some (TextObj v)" by simp
      then have "y < length h" by (rule lookup_valid)
      show ?thesis
      proof (cases "trimStart v = []")
        case True
        have "list_all2 (repr_node (h @ [ArrayObj ys, ElementObj (tagName e) (properties e) (length h)])) ys ns"
          using ns by (rule repr_list_append)
        then show ?thesis using fb ys Cons Text ly \<open>y < length h\<close> True
          by (simp add: lookup_append_old with_children_def array_at_def)
      next
        case False
        have "list_all2 (repr_node (h @ [ArrayObj (Suc (length h) # ys), TextObj (trimStart v),
            ElementObj (tagName e) (properties e) (length h)])) ys ns"
          using ns by (rule repr_list_append)
        then show ?thesis using fb ys Cons Text ly \<open>y < length h\<close> False
          by (simp add: lookup_append_old with_children_def array_at_def)
      qed
    next
      case (Comment v)
      with y have ly: "lookup h y = Some (CommentObj v)" by simp
      then have "y < length h" by (rule lookup_valid)
      moreover have "list_all2 (repr_node (h @ [ArrayObj (y # ys), ElementObj (tagName e) (properties e) (length h)])) (y # ys) (n # ns)"
        using y ns by (auto intro: repr_node_append repr_list_append)
      ultimately show ?thesis using fb ys Cons Comment ly
        by (simp add: lookup_append_old with_children_def array_at_def)
    qed
  qed
qed


lemma rebuild_s_repr:
  assumes "list_all2 (repr h) ps es" and "repr h cur e'" and "node < cur"
  shows "\<exists>c h'. rebuild_s node cur ps h = (Inr c, h') \<and> repr h' c (wrap e' es) \<and>
           cur \<le> c \<and> prefix h h'"
  using assms
proof (induction ps arbitrary: es cur e' h)
  case Nil
  then show ?case by simp
next
  case (Cons q qs)
  from Cons.prems(1) obtain f fs where es: "es = f # fs" and q: "repr h q f"
    and qs: "list_all2 (repr h) qs fs"
    by (auto simp: list_all2_Cons1)
  from Cons.prems(3) have ne: "cur \<noteq> node" by simp
  from for_body_later_repr [OF q Cons.prems(2) ne] obtain c h1 where
    fb: "for_body node cur q h = (Inr c, h1)"
    and c: "repr h1 c (with_children f (Element e' # drop 1 (children f)))"
    and le: "length h \<le> c" and p1: "prefix h h1"
    by blast
  have "list_all2 (repr h1) qs fs"
    using qs by (rule list.rel_mono_strong) (rule repr_mono(1) [OF p1])
  moreover have "cur < length h" using Cons.prems(2) by (rule repr_valid)
  then have "cur \<le> c" "node < c" using le Cons.prems(3) by simp_all
  ultimately obtain c' h' where "rebuild_s node c qs h1 = (Inr c', h')"
    "repr h' c' (wrap (with_children f (Element e' # drop 1 (children f))) fs)"
    "c \<le> c'" "prefix h1 h'"
    using Cons.IH [OF _ c] by blast
  then show ?case using fb es p1 \<open>cur \<le> c\<close>
    by (auto intro: prefix_order.trans)
qed

lemma is_checkbox_repr: "repr h a e \<Longrightarrow> is_checkbox_s h a = is_checkbox e"
  by (erule repr_elim) (simp add: is_checkbox_s_def is_checkbox_def split: option.splits)

lemma checked_of_repr: "repr h a e \<Longrightarrow> checked_of_s h a = checked_of e"
  by (erule repr_elim) (simp add: checked_of_s_def checked_of_def split: option.splits)

lemma descend_s_repr:
  assumes "agree phrasing_s phrasing"
  shows "repr h p0 e0 \<Longrightarrow> list_all2 (repr h) ps es \<Longrightarrow> node < length h \<Longrightarrow> size e0 < fuel \<Longrightarrow>
    \<exists>h'. prefix h h' \<and>
      (case extract_rec phrasing e0 of
         Inl err \<Rightarrow> descend_s fuel phrasing_s node p0 ps h = Some (Inl err, h')
       | Inr None \<Rightarrow> descend_s fuel phrasing_s node p0 ps h = Some (Inr \<lparr>checked = None, clone = node\<rparr>, h)
       | Inr (Some (b, e0')) \<Rightarrow>
           (\<exists>c. descend_s fuel phrasing_s node p0 ps h = Some (Inr \<lparr>checked = Some b, clone = c\<rparr>, h') \<and>
              repr h' c (wrap e0' es) \<and> length h \<le> c))"
proof (induction fuel arbitrary: p0 e0 ps es)
  case 0
  then show ?case by simp
next
  case (Suc fuel)
  from Suc.prems(1) obtain ca xs where l: "lookup h p0 = Some (ElementObj (tagName e0) (properties e0) ca)"
    and ar: "array_at h ca = Some xs" and kids: "list_all2 (repr_node h) xs (children e0)"
    by (rule repr_elim)
  show ?case
  proof (cases "children e0")
    case Nil
    with kids have "xs = []" by simp
    with l ar Nil show ?thesis
      by (auto simp: extract_rec.simps [of _ e0] first_of_def)
  next
    case (Cons n ns)
    with kids obtain x xs' where xs: "xs = x # xs'" and x: "repr_node h x n"
      by (auto simp: list_all2_Cons2)
    have fo: "first_of h ca = Some x" using ar xs by (simp add: first_of_def)
    show ?thesis
    proof (cases n)
      case (Text v)
      with x l fo Cons show ?thesis
        by (auto simp: extract_rec.simps [of _ e0])
    next
      case (Comment v)
      with x l fo Cons show ?thesis
        by (auto simp: extract_rec.simps [of _ e0])
    next
      case (Element c)
      with x have rc: "repr h x c" by simp
      then obtain cca where lx: "lookup h x = Some (ElementObj (tagName c) (properties c) cca)"
        by (auto elim: repr_elim)
      note ch = Cons [unfolded Element]
      have unfold: "descend_s (Suc fuel) phrasing_s node p0 ps h =
        (if is_checkbox_s h x then
           (case rebuild_s node node (p0 # ps) h of
              (Inl e, h') \<Rightarrow> Some (Inl e, h')
            | (Inr c', h') \<Rightarrow> Some (Inr \<lparr>checked = Some (checked_of_s h x), clone = c'\<rparr>, h'))
         else if tagName c = ''p'' \<or> phrasing_s h x then descend_s fuel phrasing_s node x (p0 # ps) h
         else Some (Inr \<lparr>checked = None, clone = node\<rparr>, h))"
        using l fo lx by (simp del: rebuild_s.simps)
      show ?thesis
      proof (cases "is_checkbox c")
        case True
        from for_body_first_repr [OF Suc.prems(1) ch, of node] obtain h1 where p1: "prefix h h1"
          and fb: "case cleanup ns of
              Inl err \<Rightarrow> for_body node node p0 h = (Inl err, h1)
            | Inr kids \<Rightarrow>
                (\<exists>c. for_body node node p0 h = (Inr c, h1) \<and>
                   repr h1 c (with_children e0 kids) \<and> length h \<le> c)"
          by blast
        show ?thesis
        proof (cases "cleanup ns")
          case (Inl err)
          with fb p1 True ch show ?thesis
            by (auto simp: unfold is_checkbox_repr [OF rc] extract_rec.simps [of _ e0] simp del: descend_s.simps)
        next
          case (Inr ks)
          with fb obtain c1 where fb1: "for_body node node p0 h = (Inr c1, h1)"
            and r1: "repr h1 c1 (with_children e0 ks)" and le: "length h \<le> c1"
            by auto
          have "list_all2 (repr h1) ps es"
            using Suc.prems(2) by (rule list.rel_mono_strong) (rule repr_mono(1) [OF p1])
          moreover have "node < c1" using le Suc.prems(3) by simp
          ultimately obtain c' h' where rb: "rebuild_s node c1 ps h1 = (Inr c', h')"
            and r': "repr h' c' (wrap (with_children e0 ks) es)" and "c1 \<le> c'" "prefix h1 h'"
            using rebuild_s_repr [OF _ r1] by blast
          then have "prefix h h'" "length h \<le> c'" using p1 le by (auto intro: prefix_order.trans)
          then show ?thesis using True ch Inr fb1 rb r'
            by (auto simp: unfold is_checkbox_repr [OF rc] checked_of_repr [OF rc] extract_rec.simps [of _ e0] simp del: descend_s.simps)
        qed
      next
        case False
        have ph: "phrasing_s h x = phrasing c" using assms rc by (auto simp: agree_def)
        show ?thesis
        proof (cases "tagName c = ''p'' \<or> phrasing c")
          case w: True
          have sz: "size c < fuel" using Suc.prems(4) size_child [of c e0] ch by simp
          have "list_all2 (repr h) (p0 # ps) (e0 # es)" using Suc.prems(1,2) by simp
          from Suc.IH [OF rc this Suc.prems(3) sz] obtain h' where p: "prefix h h'" and d:
            "case extract_rec phrasing c of
               Inl err \<Rightarrow> descend_s fuel phrasing_s node x (p0 # ps) h = Some (Inl err, h')
             | Inr None \<Rightarrow> descend_s fuel phrasing_s node x (p0 # ps) h =
                 Some (Inr \<lparr>checked = None, clone = node\<rparr>, h)
             | Inr (Some (b, c')) \<Rightarrow>
                 (\<exists>cl. descend_s fuel phrasing_s node x (p0 # ps) h =
                    Some (Inr \<lparr>checked = Some b, clone = cl\<rparr>, h') \<and>
                    repr h' cl (wrap c' (e0 # es)) \<and> length h \<le> cl)"
            by blast
          have step: "descend_s (Suc fuel) phrasing_s node p0 ps h =
              descend_s fuel phrasing_s node x (p0 # ps) h"
            using False w ph by (simp add: unfold is_checkbox_repr [OF rc] del: descend_s.simps)
          have rec: "extract_rec phrasing e0 =
              (case extract_rec phrasing c of
                 Inl err \<Rightarrow> Inl err
               | Inr None \<Rightarrow> Inr None
               | Inr (Some (b, c')) \<Rightarrow> Inr (Some (b, with_children e0 (Element c' # ns))))"
            using False w ch by (simp add: extract_rec.simps [of _ e0])
          show ?thesis
          proof (cases "extract_rec phrasing c")
            case (Inl err)
            with p d show ?thesis unfolding step rec by auto
          next
            case (Inr found)
            show ?thesis
            proof (cases found)
              case None
              with Inr p d show ?thesis unfolding step rec by auto
            next
              case (Some bc)
              obtain b c' where bc: "bc = (b, c')" by (cases bc)
              with Inr Some p d ch show ?thesis unfolding step rec by auto
            qed
          qed
        next
          case nw: False
          then show ?thesis using False ch ph
            by (auto simp: unfold is_checkbox_repr [OF rc] extract_rec.simps [of _ e0] simp del: descend_s.simps)
        qed
      qed
    qed
  qed
qed

lemma extract_s_refines:
  assumes "agree phrasing_s phrasing" "repr h node t" "size t < fuel"
  shows "\<exists>h'. prefix h h' \<and>
      (case extractLeadingCheckbox phrasing t of
         Inl err \<Rightarrow> extractLeadingCheckbox_s fuel phrasing_s node h = Some (Inl err, h')
       | Inr r \<Rightarrow>
           (\<exists>c. extractLeadingCheckbox_s fuel phrasing_s node h =
                  Some (Inr \<lparr>checked = checked r, clone = c\<rparr>, h') \<and>
              repr h' c (clone r) \<and>
              (if checked r = None then c = node \<and> h' = h else length h \<le> c)))"
proof -
  have "list_all2 (repr h) [] []" by simp
  from descend_s_repr [OF assms(1,2) this repr_valid [OF assms(2)] assms(3)]
  obtain h' where p: "prefix h h'" and d:
      "case extract_rec phrasing t of
         Inl err \<Rightarrow> descend_s fuel phrasing_s node node [] h = Some (Inl err, h')
       | Inr None \<Rightarrow> descend_s fuel phrasing_s node node [] h = Some (Inr \<lparr>checked = None, clone = node\<rparr>, h)
       | Inr (Some (b, e0')) \<Rightarrow>
           (\<exists>c. descend_s fuel phrasing_s node node [] h = Some (Inr \<lparr>checked = Some b, clone = c\<rparr>, h') \<and>
              repr h' c (wrap e0' []) \<and> length h \<le> c)"
    by blast
  show ?thesis
  proof (cases "extract_rec phrasing t")
    case (Inl err)
    with p d show ?thesis
      by (auto simp: extractLeadingCheckbox_s_def extract_rec_eq)
  next
    case (Inr found)
    show ?thesis
    proof (cases found)
      case None
      with Inr d assms(2) have "extractLeadingCheckbox_s fuel phrasing_s node h =
          Some (Inr \<lparr>checked = None, clone = node\<rparr>, h) \<and> repr h node t"
        by (simp add: extractLeadingCheckbox_s_def)
      with Inr None show ?thesis
        by (intro exI [of _ h]) (simp add: extract_rec_eq)
    next
      case (Some bc)
      obtain b e' where bc: "bc = (b, e')" by (cases bc)
      with Inr Some d obtain c where "extractLeadingCheckbox_s fuel phrasing_s node h =
          Some (Inr \<lparr>checked = Some b, clone = c\<rparr>, h')" "repr h' c e'" "length h \<le> c"
        by (auto simp: extractLeadingCheckbox_s_def)
      with Inr Some bc p show ?thesis
        by (intro exI [of _ h']) (simp add: extract_rec_eq)
    qed
  qed
qed

text \<open>What the loops allocate, and what they share with the input.\<close>

lemma copy_of_Some:
  "copy_of h h' p c = Some (xs, ys) \<longleftrightarrow>
     (\<exists>tag props ca ca'.
        lookup h p = Some (ElementObj tag props ca) \<and>
        lookup h' c = Some (ElementObj tag props ca') \<and> length h \<le> c \<and> length h \<le> ca' \<and>
        array_at h ca = Some xs \<and> array_at h' ca' = Some ys)"
  by (auto simp: copy_of_def split: option.splits obj.splits)

lemma copy_of_mono:
  assumes "prefix h1 h2" "copy_of h h1 p c = Some (xs, ys)"
  shows "copy_of h h2 p c = Some (xs, ys)"
proof -
  from assms(2) obtain tag props ca ca' where
    "lookup h p = Some (ElementObj tag props ca)" "lookup h1 c = Some (ElementObj tag props ca')"
    "length h \<le> c" "length h \<le> ca'" "array_at h ca = Some xs" "array_at h1 ca' = Some ys"
    unfolding copy_of_Some by blast
  with lookup_mono [OF assms(1)] array_at_mono [OF assms(1)] show ?thesis
    unfolding copy_of_Some by blast
qed

lemma innermost_kids_mono:
  "prefix h1 h2 \<Longrightarrow> innermost_kids h h1 xs ys \<Longrightarrow> innermost_kids h h2 xs ys"
  by (auto simp: innermost_kids_def split: list.splits option.splits obj.splits if_splits
      dest: lookup_mono)

lemma rebuilt_0:
  "rebuilt h h' 0 p c \<longleftrightarrow>
     (\<exists>xs ys. copy_of h h' p c = Some (xs, ys) \<and> innermost_kids h h' xs ys)"
  by (cases "copy_of h h' p c") auto

lemma rebuilt_Suc:
  "rebuilt h h' (Suc k) p c \<longleftrightarrow>
     (\<exists>x rest y. copy_of h h' p c = Some (x # rest, y # rest) \<and> rebuilt h h' k x y)"
proof (cases "copy_of h h' p c")
  case None
  then show ?thesis by simp
next
  case (Some r)
  obtain xs ys where r: "r = (xs, ys)" by (cases r)
  show ?thesis unfolding rebuilt.simps Some r
    by (cases xs; cases ys) auto
qed

declare rebuilt.simps [simp del]

lemma rebuilt_mono: "prefix h1 h2 \<Longrightarrow> rebuilt h h1 k p c \<Longrightarrow> rebuilt h h2 k p c"
proof (induction k arbitrary: p c)
  case 0
  from "0.prems"(2) obtain xs ys where
    c: "copy_of h h1 p c = Some (xs, ys)" and r: "innermost_kids h h1 xs ys"
    unfolding rebuilt_0 by blast
  from copy_of_mono [OF "0.prems"(1) c] innermost_kids_mono [OF "0.prems"(1) r] show ?case
    unfolding rebuilt_0 by blast
next
  case (Suc k)
  from Suc.prems(2) obtain x rest y where
    c: "copy_of h h1 p c = Some (x # rest, y # rest)" and r: "rebuilt h h1 k x y"
    unfolding rebuilt_Suc by blast
  from copy_of_mono [OF Suc.prems(1) c] Suc.IH [OF Suc.prems(1) r] show ?case
    unfolding rebuilt_Suc by blast
qed

lemma array_at_append_old: "array_at h a = Some xs \<Longrightarrow> array_at (h @ obs) a = Some xs"
  by (rule array_at_mono) simp_all

lemma copy_of_new:
  assumes "prefix h hc" "lookup h p = Some (ElementObj tag props ca)" "array_at h ca = Some xs"
  shows "copy_of h (hc @ [ArrayObj ys, ElementObj tag props (length hc)]) p (Suc (length hc)) = Some (xs, ys)"
    and "copy_of h (hc @ [ArrayObj ys, TextObj v, ElementObj tag props (length hc)]) p (Suc (Suc (length hc)))
           = Some (xs, ys)"
proof -
  from assms(1) have "length h \<le> length hc" by (rule prefix_length_le)
  then show "copy_of h (hc @ [ArrayObj ys, ElementObj tag props (length hc)]) p (Suc (length hc)) = Some (xs, ys)"
    and "copy_of h (hc @ [ArrayObj ys, TextObj v, ElementObj tag props (length hc)]) p (Suc (Suc (length hc)))
           = Some (xs, ys)"
    using assms(2,3) by (simp_all add: copy_of_def)
qed

lemma for_body_first_rebuilt:
  assumes l: "lookup h p = Some (ElementObj tag props ca)" and ar: "array_at h ca = Some xs"
    and fb: "for_body node node p h = (Inr c, h1)"
  shows "rebuilt h h1 0 p c \<and> length h1 \<le> length h + 3 \<and> length h \<le> c"
proof -
  note fb' = for_body_first [OF l ar, of node, unfolded fb]
  note cp = copy_of_new [OF prefix_order.refl l ar]
  from fb' obtain t rest where d: "drop 1 xs = t # rest"
    by (cases "drop 1 xs") simp_all
  then obtain cb where xs: "xs = cb # t # rest"
    by (cases xs) simp_all
  from fb' d obtain ob where lt1: "lookup (h @ [ArrayObj (t # rest)]) t = Some ob"
    by (cases "lookup (h @ [ArrayObj (t # rest)]) t") simp_all
  note fb'' = fb' [unfolded d list.case lt1 option.case]
  show ?thesis
  proof (cases "\<exists>v. ob = TextObj v")
    case True
    then obtain v where ob: "ob = TextObj v" ..
    have "t < length h"
    proof (rule ccontr)
      assume "\<not> t < length h"
      with lt1 ob show False by (cases "t = length h") (simp_all add: lookup_def)
    qed
    then have lt: "lookup h t = Some (TextObj v)" using lt1 ob by (simp add: lookup_append_old)
    show ?thesis
    proof (cases "trimStart v = []")
      case True
      with fb'' ob have "c = Suc (length h)"
        "h1 = h @ [ArrayObj rest, ElementObj tag props (length h)]" by simp_all
      then show ?thesis using cp(1) [of rest] xs lt True
        by (simp add: innermost_kids_def rebuilt_0)
    next
      case False
      with fb'' ob have "c = Suc (Suc (length h))"
        "h1 = h @ [ArrayObj (Suc (length h) # rest), TextObj (trimStart v), ElementObj tag props (length h)]"
        by simp_all
      then show ?thesis using cp(2) [of "Suc (length h) # rest" "trimStart v"] xs lt False
        by (simp add: innermost_kids_def rebuilt_0)
    qed
  next
    case False
    then have nt: "\<And>v. ob \<noteq> TextObj v" by blast
    have nt': "lookup h t \<noteq> Some (TextObj v)" for v
    proof (cases "t < length h")
      case True
      then show ?thesis using lt1 nt by (simp add: lookup_append_old)
    next
      case False
      then show ?thesis by (simp add: lookup_def)
    qed
    from fb'' nt have "c = Suc (length h) \<and>
      h1 = h @ [ArrayObj (t # rest), ElementObj tag props (length h)]"
      by (cases ob) auto
    then show ?thesis using cp(1) [of "t # rest"] xs nt'
      by (auto simp: innermost_kids_def rebuilt_0 split: option.splits obj.splits)
  qed
qed


lemma for_body_later_rebuilt:
  assumes pre: "prefix h hc" and l: "lookup h q = Some (ElementObj tag props ca)"
    and ar: "array_at h ca = Some (p # rest)" and r: "rebuilt h hc k p cur" and ne: "cur \<noteq> node"
  shows "\<exists>c h2. for_body node cur q hc = (Inr c, h2) \<and> rebuilt h h2 (Suc k) q c \<and>
           length h2 = length hc + 2 \<and> prefix hc h2 \<and> length hc < c"
proof -
  let ?h2 = "hc @ [ArrayObj (cur # rest), ElementObj tag props (length hc)]"
  have "for_body node cur q hc = (Inr (Suc (length hc)), ?h2)"
    using for_body_later [OF lookup_mono [OF pre l] array_at_mono [OF pre ar] ne] by simp
  moreover have "copy_of h ?h2 q (Suc (length hc)) = Some (p # rest, cur # rest)"
    by (rule copy_of_new(1) [OF pre l ar])
  moreover have "rebuilt h ?h2 k p cur" using r by (rule rebuilt_mono [rotated]) simp
  ultimately show ?thesis by (simp add: rebuilt_Suc)
qed

lemma chain_s_Cons:
  "chain_s h (p # q # qs) \<Longrightarrow>
   \<exists>tag props ca rest. lookup h q = Some (ElementObj tag props ca) \<and> array_at h ca = Some (p # rest)"
  by (auto simp: first_of_def split: option.splits obj.splits list.splits)

lemma rebuilt_copy: "rebuilt h h' k p c \<Longrightarrow> \<exists>xs ys. copy_of h h' p c = Some (xs, ys)"
  by (cases k) (auto simp: rebuilt_0 rebuilt_Suc)

lemma rebuilt_valid: "rebuilt h h' k p c \<Longrightarrow> c < length h' \<and> length h \<le> c \<and> p < length h"
  by (auto dest!: rebuilt_copy simp: copy_of_Some dest: lookup_valid)

lemma rebuild_s_rebuilt:
  assumes "chain_s h (p # qs)" "prefix h hc" "rebuilt h hc k p cur" "node < cur"
  shows "\<exists>c h'. rebuild_s node cur qs hc = (Inr c, h') \<and>
           rebuilt h h' (k + length qs) (last (p # qs)) c \<and>
           length h' = length hc + 2 * length qs \<and> prefix hc h'"
  using assms
proof (induction qs arbitrary: p cur hc k)
  case Nil
  then show ?case by simp
next
  case (Cons q qs)
  from chain_s_Cons [OF Cons.prems(1)] obtain tag props ca rest where
    l: "lookup h q = Some (ElementObj tag props ca)" and ar: "array_at h ca = Some (p # rest)"
    by blast
  from Cons.prems(4) have ne: "cur \<noteq> node" by simp
  from for_body_later_rebuilt [OF Cons.prems(2) l ar Cons.prems(3) ne] obtain c h2 where
    fb: "for_body node cur q hc = (Inr c, h2)" and r2: "rebuilt h h2 (Suc k) q c"
    and len: "length h2 = length hc + 2" and p2: "prefix hc h2" and lt: "length hc < c"
    by blast
  have "cur < length hc" using rebuilt_valid [OF Cons.prems(3)] by simp
  then have nc: "node < c" using Cons.prems(4) lt by simp
  have ch: "chain_s h (q # qs)" using Cons.prems(1) by simp
  have p3: "prefix h h2" using Cons.prems(2) p2 by (rule prefix_order.trans)
  from Cons.IH [OF ch p3 r2 nc] obtain c' h' where
    "rebuild_s node c qs h2 = (Inr c', h')" "rebuilt h h' (Suc k + length qs) (last (q # qs)) c'"
    "length h' = length h2 + 2 * length qs" "prefix h2 h'"
    by blast
  then show ?case using fb len p2 by (auto intro: prefix_order.trans)
qed

lemma chain_s_valid:
  "chain_s h (p0 # ps) \<Longrightarrow> p0 < length h \<Longrightarrow> last (p0 # ps) < length h"
proof (induction ps arbitrary: p0)
  case Nil
  then show ?case by simp
next
  case (Cons q qs)
  from chain_s_Cons [OF Cons.prems(1)] have "q < length h" by (auto dest: lookup_valid)
  moreover have "chain_s h (q # qs)" using Cons.prems(1) by simp
  ultimately show ?case using Cons.IH by simp
qed

lemma descend_s_rebuilt:
  "chain_s h (p0 # ps) \<Longrightarrow> last (p0 # ps) = node \<Longrightarrow>
   descend_s fuel phrasing node p0 ps h = Some (Inr r, h') \<Longrightarrow> checked r \<noteq> None \<Longrightarrow>
   \<exists>k. rebuilt h h' k node (clone r) \<and> length h' \<le> length h + 2 * Suc k + 1"
proof (induction fuel arbitrary: p0 ps)
  case 0
  then show ?case by simp
next
  case (Suc fuel)
  from Suc.prems(3,4) obtain tag props ca x ctag cprops cca where
    l: "lookup h p0 = Some (ElementObj tag props ca)" and fo: "first_of h ca = Some x"
    and lx: "lookup h x = Some (ElementObj ctag cprops cca)"
    by (auto split: option.splits obj.splits if_splits simp del: rebuild_s.simps)
  from fo obtain xs where ar: "array_at h ca = Some xs"
    by (auto simp: first_of_def split: option.splits)
  have unfold: "descend_s (Suc fuel) phrasing node p0 ps h =
    (if is_checkbox_s h x then
       (case rebuild_s node node (p0 # ps) h of
          (Inl e, h') \<Rightarrow> Some (Inl e, h')
        | (Inr c', h') \<Rightarrow> Some (Inr \<lparr>checked = Some (checked_of_s h x), clone = c'\<rparr>, h'))
     else if ctag = ''p'' \<or> phrasing h x then descend_s fuel phrasing node x (p0 # ps) h
     else Some (Inr \<lparr>checked = None, clone = node\<rparr>, h))"
    using l fo lx by (simp del: rebuild_s.simps)
  show ?case
  proof (cases "is_checkbox_s h x")
    case True
    with Suc.prems(3) obtain c where rb: "rebuild_s node node (p0 # ps) h = (Inr c, h')"
      and c: "clone r = c"
      unfolding unfold by (auto split: prod.splits sum.splits simp del: rebuild_s.simps)
    from rb obtain c1 h1 where fb: "for_body node node p0 h = (Inr c1, h1)"
      and rb1: "rebuild_s node c1 ps h1 = (Inr c, h')"
      by (auto split: prod.splits sum.splits)
    from for_body_first_rebuilt [OF l ar fb] have r1: "rebuilt h h1 0 p0 c1"
      and len1: "length h1 \<le> length h + 3" and le: "length h \<le> c1" by simp_all
    have p1: "prefix h h1" using fb by (rule for_body_frame)
    have "node < length h"
      using chain_s_valid [OF Suc.prems(1) lookup_valid [OF l]] Suc.prems(2) by simp
    then have "node < c1" using le by simp
    from rebuild_s_rebuilt [OF Suc.prems(1) p1 r1 this] rb1 Suc.prems(2)
    have "rebuilt h h' (length ps) node c" "length h' = length h1 + 2 * length ps"
      by simp_all
    with len1 c show ?thesis by (intro exI [of _ "length ps"]) simp
  next
    case False
    with Suc.prems(3,4) have w: "ctag = ''p'' \<or> phrasing h x"
      and d: "descend_s fuel phrasing node x (p0 # ps) h = Some (Inr r, h')"
      unfolding unfold by (auto split: if_splits)
    have "chain_s h (x # p0 # ps)" using Suc.prems(1) l fo by simp
    from Suc.IH [OF this _ d Suc.prems(4)] Suc.prems(2) show ?thesis by simp
  qed
qed


text \<open>The classification on a store: it returns the store it was given, and it refines
  the classification on values.\<close>

lemma spreadout_s_frame_aux:
  "(\<forall>node h res h'. spreadout_s fuel phrasing node h = Some (res, h') \<longrightarrow> h' = h) \<and>
   (\<forall>node index seenFlow h res h'.
      spreadout_loop_s fuel phrasing node index seenFlow h = Some (res, h') \<longrightarrow> h' = h)"
proof (induction fuel)
  case 0
  then show ?case by simp
next
  case (Suc fuel)
  then have ih1: "\<And>node h res h'. spreadout_s fuel phrasing node h = Some (res, h') \<Longrightarrow> h' = h"
    and ih2: "\<And>node index seenFlow h res h'.
      spreadout_loop_s fuel phrasing node index seenFlow h = Some (res, h') \<Longrightarrow> h' = h"
    by blast+
  have "h' = h" if "spreadout_s (Suc fuel) phrasing node h = Some (res, h')" for node h res h'
    using that ih2 by simp
  moreover have "h' = h"
    if "spreadout_loop_s (Suc fuel) phrasing node index seenFlow h = Some (res, h')"
    for node index seenFlow h res h'
    using that
    by (auto simp: Let_def split: option.splits obj.splits if_splits prod.splits sum.splits bool.splits
        dest: ih1 ih2)
  ultimately show ?case by blast
qed


lemma spreadout_s_refines_aux:
  assumes ag: "agree phrasing_s phrasing"
  shows "(\<forall>node t. repr h node t \<and> size t < fuel \<longrightarrow>
            spreadout_s fuel phrasing_s node h = Some (Inr (spreadout phrasing t), h)) \<and>
         (\<forall>node t index seenFlow.
            repr h node t \<and> size_list size (drop index (children t)) < fuel \<longrightarrow>
            spreadout_loop_s fuel phrasing_s node index seenFlow h =
              Some (Inr (spreadout_loop phrasing (drop index (children t)) seenFlow), h))"
proof (induction fuel)
  case 0
  then show ?case by simp
next
  case (Suc fuel)
  then have ih1: "\<And>node t. repr h node t \<Longrightarrow> size t < fuel \<Longrightarrow>
      spreadout_s fuel phrasing_s node h = Some (Inr (spreadout phrasing t), h)"
    and ih2: "\<And>node t index seenFlow.
      repr h node t \<Longrightarrow> size_list size (drop index (children t)) < fuel \<Longrightarrow>
      spreadout_loop_s fuel phrasing_s node index seenFlow h =
        Some (Inr (spreadout_loop phrasing (drop index (children t)) seenFlow), h)"
    by blast+
  have one: "spreadout_s (Suc fuel) phrasing_s node h = Some (Inr (spreadout phrasing t), h)"
    if r: "repr h node t" and sz: "size t < Suc fuel" for node t
  proof -
    have "size_list size (drop 0 (children t)) < fuel" using sz by (simp add: size_children [of t])
    from ih2 [OF r this, of False] show ?thesis by (cases t) simp
  qed
  have two: "spreadout_loop_s (Suc fuel) phrasing_s node index seenFlow h =
        Some (Inr (spreadout_loop phrasing (drop index (children t)) seenFlow), h)"
    if r: "repr h node t" and sz: "size_list size (drop index (children t)) < Suc fuel"
    for node t index seenFlow
  proof -
    from r obtain ca xs where l: "lookup h node = Some (ElementObj (tagName t) (properties t) ca)"
      and ar: "array_at h ca = Some xs" and kids: "list_all2 (repr_node h) xs (children t)"
      by (rule repr_elim)
    from kids have len: "length xs = length (children t)" by (rule list_all2_lengthD)
    show ?thesis
    proof (cases "index < length xs")
      case False
      with l ar len show ?thesis by simp
    next
      case True
      let ?child = "xs ! index" and ?c = "children t ! index"
      have dr: "drop index (children t) = ?c # drop (Suc index) (children t)"
        using True len by (simp add: Cons_nth_drop_Suc)
      have rc: "repr_node h ?child ?c" using kids True by (rule list_all2_nthD)
      have sz': "size ?c + 1 + size_list size (drop (Suc index) (children t)) < Suc fuel"
        using sz unfolding dr by simp
      then have next_ok: "size_list size (drop (Suc index) (children t)) < fuel" by simp
      note nxt = ih2 [OF r next_ok]
      show ?thesis
      proof (cases ?c)
        case (Text v)
        with rc l ar True nxt show ?thesis by (simp add: dr Let_def)
      next
        case (Comment v)
        with rc l ar True nxt show ?thesis by (simp add: dr Let_def)
      next
        case (Element e)
        with rc have re: "repr h ?child e" by simp
        then obtain cca where lc: "lookup h ?child = Some (ElementObj (tagName e) (properties e) cca)"
          by (auto elim: repr_elim)
        have ph: "phrasing_s h ?child = phrasing e" using ag re by (auto simp: agree_def)
        have "size e < fuel" using sz' Element by simp
        from ih1 [OF re this] l ar True lc ph nxt Element show ?thesis
          by (simp add: dr Let_def)
      qed
    qed
  qed
  from one two show ?case by blast
qed

lemma agree_tags: "agree phrasing_tags_s phrasing_tags"
  by (auto simp: agree_def phrasing_tags_s_def phrasing_tags_def elim!: repr_elim)

lemma extract_null_iff:
  "(\<not> has_leading_checkbox phrasing node \<longrightarrow>
      extractLeadingCheckbox phrasing node = Inr \<lparr>checked = None, clone = node\<rparr>) \<and>
   (\<forall>r. extractLeadingCheckbox phrasing node = Inr r \<longrightarrow>
      (checked r = None \<longleftrightarrow> \<not> has_leading_checkbox phrasing node))"
  using extract_rec_None [of phrasing node]
  by (auto simp: extract_rec_eq split: sum.splits option.splits)

text \<open>
  The extraction raises exactly when the control at the head of the spine is the only
  child of its parent.
\<close>

lemma extract_rec_raises:
  "extract_rec phrasing e = Inl err \<Longrightarrow>
   \<exists>k p cb. spine_at phrasing k e = Some p \<and> children p = [Element cb] \<and> is_checkbox cb"
proof (induction phrasing e rule: extract_rec.induct)
  case (1 phrasing e)
  from "1.prems" obtain c others where kids: "children e = Element c # others"
    by (auto simp: extract_rec.simps [of _ e] split: list.splits node.splits)
  show ?case
  proof (cases "is_checkbox c")
    case True
    with "1.prems" kids have "cleanup others = Inl err"
      by (auto simp: extract_rec.simps [of _ e] split: sum.splits)
    then have "others = []" by (cases others rule: cleanup.cases) (auto split: if_splits)
    with kids True have "spine_at phrasing 0 e = Some e \<and> children e = [Element c] \<and> is_checkbox c"
      by simp
    then show ?thesis by blast
  next
    case False
    with "1.prems" kids have w: "tagName c = ''p'' \<or> phrasing c"
      by (auto simp: extract_rec.simps [of _ e] split: if_splits)
    with "1.prems" kids False have "extract_rec phrasing c = Inl err"
      by (auto simp: extract_rec.simps [of _ e] split: sum.splits option.splits)
    from "1.IH" [OF kids refl False w this] obtain k p cb where
      "spine_at phrasing k c = Some p" "children p = [Element cb]" "is_checkbox cb"
      by blast
    with kids False w have "spine_at phrasing (Suc k) e = Some p \<and> children p = [Element cb] \<and> is_checkbox cb"
      by (simp add: first_child_def wrapper_def)
    then show ?thesis by blast
  qed
qed

lemma extract_raises_iff:
  "extractLeadingCheckbox phrasing node = Inl TypeError \<longleftrightarrow>
     (\<exists>k p cb. spine_at phrasing k node = Some p \<and> children p = [Element cb] \<and> is_checkbox cb)"
proof
  assume "extractLeadingCheckbox phrasing node = Inl TypeError"
  then have "extract_rec phrasing node = Inl TypeError"
    by (auto simp: extract_rec_eq split: sum.splits option.splits)
  then show "\<exists>k p cb. spine_at phrasing k node = Some p \<and> children p = [Element cb] \<and> is_checkbox cb"
    by (rule extract_rec_raises)
next
  assume "\<exists>k p cb. spine_at phrasing k node = Some p \<and> children p = [Element cb] \<and> is_checkbox cb"
  then obtain k p cb where "spine_at phrasing k node = Some p" "children p = [Element cb]" "is_checkbox cb"
    by blast
  from extract_rec_spine [OF this] show "extractLeadingCheckbox phrasing node = Inl TypeError"
    by (simp add: extract_rec_eq)
qed

subsection \<open>Claims about the extraction\<close>

text \<open>
  C1. The extraction is not total: on a list item whose only child is the control, here
  \<^verbatim>\<open><li><input type="radio"></li>\<close>, the sliced array is empty and reading
  \<^verbatim>\<open>children[0].type\<close> raises a TypeError, whatever the phrasing predicate is.
  (Lemma \<open>extract_raises_iff\<close> gives all the inputs on which this happens.)
\<close>

theorem extract_raises_on_lone_radio:
  "extractLeadingCheckbox phrasing (Elem ''li'' (Some []) [Element radio_plain]) = Inl TypeError"
  by (simp add: extractLeadingCheckbox_def descend.simps radio_plain_def is_checkbox_def)

text \<open>
  C2. On \<^verbatim>\<open><li><input type="checkbox" checked></li>\<close> the extraction does not return
  \<^verbatim>\<open>checked = true\<close> with a childless clone: it raises a TypeError.
\<close>

theorem extract_raises_on_lone_checked_checkbox:
  "extractLeadingCheckbox phrasing (Elem ''li'' (Some []) [Element checkbox_checked]) = Inl TypeError"
  by (simp add: extractLeadingCheckbox_def descend.simps checkbox_checked_def is_checkbox_def)

text \<open>
  C3. When the control found at the head of the spine is followed by a text in the
  innermost spine element \<open>p\<close>, the extraction returns the state of the control and the
  node rebuilt along the spine, in which \<open>p\<close> has lost the control and the text has
  lost its leading white space, or is gone when nothing else was in it. In particular
  \<^verbatim>\<open><li><p><input type="checkbox"> text</p></li>\<close> gives \<^verbatim>\<open>checked = false\<close> and
  \<^verbatim>\<open><li><p>text</p></li>\<close>.
\<close>

theorem extract_trims_following_text:
  "(spine_at phrasing k node = Some p \<and> children p = Element cb # Text v # rest \<and> is_checkbox cb \<longrightarrow>
      extractLeadingCheckbox phrasing node =
        Inr \<lparr>checked = Some (checked_of cb),
             clone = replace_at k node
               (with_children p (if trimStart v = [] then rest else Text (trimStart v) # rest))\<rparr>) \<and>
   extractLeadingCheckbox phrasing
     (Elem ''li'' (Some []) [Element (Elem ''p'' (Some []) [Element checkbox_plain, Text (ascii '' text'')])]) =
     Inr \<lparr>checked = Some False,
          clone = Elem ''li'' (Some []) [Element (Elem ''p'' (Some []) [Text (ascii ''text'')])]\<rparr>"
proof (intro conjI impI)
  assume h: "spine_at phrasing k node = Some p \<and> children p = Element cb # Text v # rest \<and> is_checkbox cb"
  then have "extract_rec phrasing node =
      (case cleanup (Text v # rest) of
         Inl err \<Rightarrow> Inl err
       | Inr kids \<Rightarrow> Inr (Some (checked_of cb, replace_at k node (with_children p kids))))"
    by (intro extract_rec_spine) simp_all
  then show "extractLeadingCheckbox phrasing node =
        Inr \<lparr>checked = Some (checked_of cb),
             clone = replace_at k node
               (with_children p (if trimStart v = [] then rest else Text (trimStart v) # rest))\<rparr>"
    by (simp add: extract_rec_eq)
next
  show "extractLeadingCheckbox phrasing
     (Elem ''li'' (Some []) [Element (Elem ''p'' (Some []) [Element checkbox_plain, Text (ascii '' text'')])]) =
     Inr \<lparr>checked = Some False,
          clone = Elem ''li'' (Some []) [Element (Elem ''p'' (Some []) [Text (ascii ''text'')])]\<rparr>"
    by (simp add: extractLeadingCheckbox_def descend.simps checkbox_plain_def is_checkbox_def
        checked_of_def with_children_def trimStart_def ascii_def is_white_space_def)
qed

theorem extract_trims_following_text_witness:
  "spine_at phrasing_tags 1 (Elem ''li'' (Some []) [Element (Elem ''span'' None [Element radio_plain, Text (ascii ''  ''), Comment []])])
     = Some (Elem ''span'' None [Element radio_plain, Text (ascii ''  ''), Comment []]) \<and>
   is_checkbox radio_plain \<and>
   extractLeadingCheckbox phrasing_tags
     (Elem ''li'' (Some []) [Element (Elem ''span'' None [Element radio_plain, Text (ascii ''  ''), Comment []])]) =
     Inr \<lparr>checked = Some False, clone = Elem ''li'' (Some []) [Element (Elem ''span'' None [Comment []])]\<rparr>"
  using extract_trims_following_text
    [of phrasing_tags 1 "Elem ''li'' (Some []) [Element (Elem ''span'' None [Element radio_plain, Text (ascii ''  ''), Comment []])]"
        "Elem ''span'' None [Element radio_plain, Text (ascii ''  ''), Comment []]" radio_plain "ascii ''  ''" "[Comment []]"]
  by (simp add: first_child_def wrapper_def phrasing_tags_def radio_plain_def is_checkbox_def
      checked_of_def with_children_def trimStart_def ascii_def is_white_space_def)

text \<open>
  C4. Let the store hold the tree \<open>t\<close> at the address \<open>node\<close>. When no control is reachable
  along the spine of \<open>t\<close>, the extraction returns \<^verbatim>\<open>checked = null\<close>, the address \<open>node\<close>
  itself as the clone, and the store it was given: nothing is allocated. Whenever the
  extraction returns, \<^verbatim>\<open>checked\<close> is \<^verbatim>\<open>null\<close> exactly in that case.
  (Lemma \<open>extract_null_iff\<close> is the same statement on values.)
\<close>

theorem extract_null_returns_input:
  assumes "agree phrasing_s phrasing" "repr h node t" "size t < fuel"
  shows "(\<not> has_leading_checkbox phrasing t \<longrightarrow>
            extractLeadingCheckbox_s fuel phrasing_s node h =
              Some (Inr \<lparr>checked = None, clone = node\<rparr>, h)) \<and>
         (\<forall>r h'. extractLeadingCheckbox_s fuel phrasing_s node h = Some (Inr r, h') \<longrightarrow>
            (checked r = None \<longleftrightarrow> \<not> has_leading_checkbox phrasing t))"
proof -
  from extract_s_refines [OF assms] obtain h1 where d:
    "case extractLeadingCheckbox phrasing t of
       Inl err \<Rightarrow> extractLeadingCheckbox_s fuel phrasing_s node h = Some (Inl err, h1)
     | Inr r \<Rightarrow>
         (\<exists>c. extractLeadingCheckbox_s fuel phrasing_s node h =
                Some (Inr \<lparr>checked = checked r, clone = c\<rparr>, h1) \<and>
            repr h1 c (clone r) \<and>
            (if checked r = None then c = node \<and> h1 = h else length h \<le> c))"
    by blast
  note v = extract_null_iff [of phrasing t]
  show ?thesis
  proof (cases "extractLeadingCheckbox phrasing t")
    case (Inl err)
    with d v show ?thesis by auto
  next
    case (Inr r0)
    with d obtain c where e: "extractLeadingCheckbox_s fuel phrasing_s node h =
        Some (Inr \<lparr>checked = checked r0, clone = c\<rparr>, h1)"
      and i: "if checked r0 = None then c = node \<and> h1 = h else length h \<le> c"
      by auto
    from v Inr have iff: "checked r0 = None \<longleftrightarrow> \<not> has_leading_checkbox phrasing t" by simp
    show ?thesis using e i iff by auto
  qed
qed

theorem extract_null_returns_input_witness:
  "repr store2 4 (Elem ''li'' (Some []) [Text (ascii ''a''), Element checkbox_plain]) \<and>
   \<not> has_leading_checkbox phrasing_tags (Elem ''li'' (Some []) [Text (ascii ''a''), Element checkbox_plain]) \<and>
   extractLeadingCheckbox_s 10 phrasing_tags_s 4 store2 =
     Some (Inr \<lparr>checked = None, clone = 4\<rparr>, store2)"
proof -
  have r: "repr store2 4 (Elem ''li'' (Some []) [Text (ascii ''a''), Element checkbox_plain])"
    by code_simp
  have sz: "size (Elem ''li'' (Some []) [Text (ascii ''a''), Element checkbox_plain]) < 10"
    by (simp add: checkbox_plain_def)
  have n: "\<not> has_leading_checkbox phrasing_tags (Elem ''li'' (Some []) [Text (ascii ''a''), Element checkbox_plain])"
    by code_simp
  from extract_null_returns_input [OF agree_tags r sz] r n show ?thesis by simp
qed


text \<open>
  C5, as stated, fails on \<^verbatim>\<open><li><input type="checkbox"><input type="checkbox"
  checked> x</li>\<close>: the extraction succeeds with \<^verbatim>\<open>checked = false\<close>, and the
  extraction on the clone it returns succeeds again, with \<^verbatim>\<open>checked = true\<close>.
\<close>

theorem second_extraction_counterexample:
  "extractLeadingCheckbox phrasing_tags two_boxes =
     Inr \<lparr>checked = Some False,
          clone = Elem ''li'' (Some []) [Element checkbox_checked, Text (ascii '' x'')]\<rparr> \<and>
   extractLeadingCheckbox phrasing_tags (Elem ''li'' (Some []) [Element checkbox_checked, Text (ascii '' x'')]) =
     Inr \<lparr>checked = Some True, clone = Elem ''li'' (Some []) [Text (ascii ''x'')]\<rparr>"
  by (simp add: extractLeadingCheckbox_def descend.simps two_boxes_def checkbox_plain_def checkbox_checked_def is_checkbox_def
        checked_of_def with_children_def trimStart_def ascii_def is_white_space_def)

text \<open>
  C5, amended. Let the control \<open>cb\<close> be found as the first child of the innermost spine
  element \<open>p\<close>, at depth \<open>k\<close>, and let the extraction succeed, leaving \<open>kids\<close> as the
  children of the rebuilt \<open>p\<close>. If no control is reachable by first-child descent from
  the rebuilt \<open>p\<close>, then the extraction returns the state of \<open>cb\<close> and the clone, and a
  second extraction on that clone returns \<^verbatim>\<open>checked = null\<close> and the clone itself.
\<close>

theorem second_extraction_null:
  "spine_at phrasing k node = Some p \<Longrightarrow> children p = Element cb # rest \<Longrightarrow> is_checkbox cb \<Longrightarrow>
   cleanup rest = Inr kids \<Longrightarrow> \<not> has_leading_checkbox phrasing (with_children p kids) \<Longrightarrow>
   extractLeadingCheckbox phrasing node =
     Inr \<lparr>checked = Some (checked_of cb), clone = replace_at k node (with_children p kids)\<rparr> \<and>
   extractLeadingCheckbox phrasing (replace_at k node (with_children p kids)) =
     Inr \<lparr>checked = None, clone = replace_at k node (with_children p kids)\<rparr>"
proof (intro conjI)
  assume h: "spine_at phrasing k node = Some p" "children p = Element cb # rest" "is_checkbox cb"
    "cleanup rest = Inr kids" "\<not> has_leading_checkbox phrasing (with_children p kids)"
  from extract_rec_spine [OF h(1,2,3)] h(4)
  show "extractLeadingCheckbox phrasing node =
     Inr \<lparr>checked = Some (checked_of cb), clone = replace_at k node (with_children p kids)\<rparr>"
    by (simp add: extract_rec_eq)
  from no_leading_checkbox_replace [OF h(1,5)]
  have "extract_rec phrasing (replace_at k node (with_children p kids)) = Inr None"
    by (simp add: extract_rec_None)
  then show "extractLeadingCheckbox phrasing (replace_at k node (with_children p kids)) =
     Inr \<lparr>checked = None, clone = replace_at k node (with_children p kids)\<rparr>"
    by (simp add: extract_rec_eq)
qed

theorem second_extraction_null_witness:
  "spine_at phrasing_tags 1 (Elem ''li'' (Some []) [Element (Elem ''p'' (Some []) [Element checkbox_plain, Text (ascii '' text'')])])
     = Some (Elem ''p'' (Some []) [Element checkbox_plain, Text (ascii '' text'')]) \<and>
   is_checkbox checkbox_plain \<and>
   cleanup [Text (ascii '' text'')] = Inr [Text (ascii ''text'')] \<and>
   \<not> has_leading_checkbox phrasing_tags (Elem ''p'' (Some []) [Text (ascii ''text'')]) \<and>
   extractLeadingCheckbox phrasing_tags
     (Elem ''li'' (Some []) [Element (Elem ''p'' (Some []) [Text (ascii ''text'')])]) =
     Inr \<lparr>checked = None,
          clone = Elem ''li'' (Some []) [Element (Elem ''p'' (Some []) [Text (ascii ''text'')])]\<rparr>"
  using second_extraction_null
    [of phrasing_tags 1 "Elem ''li'' (Some []) [Element (Elem ''p'' (Some []) [Element checkbox_plain, Text (ascii '' text'')])]"
        "Elem ''p'' (Some []) [Element checkbox_plain, Text (ascii '' text'')]" checkbox_plain
        "[Text (ascii '' text'')]" "[Text (ascii ''text'')]"]
  by (simp add: first_child_def wrapper_def phrasing_tags_def checkbox_plain_def is_checkbox_def
      has_leading_checkbox.simps with_children_def trimStart_def ascii_def is_white_space_def)

text \<open>
  C8. A call of the extraction leaves every object of the store as it was: the store
  after the call is the store before it with new objects appended, whether the call
  returns or raises. When it has removed a control, the clone is rebuilt along the spine
  only: for a spine of \<open>k + 1\<close> elements there are at most \<open>2 * (k + 1) + 1\<close> new objects
  (an element and an array for each, and one text), and every other child of a rebuilt
  element is the address of the child of the original. A call of the classification
  returns the store it was given.
\<close>

theorem extract_never_writes:
  "(extractLeadingCheckbox_s fuel phrasing node h = Some (res, h') \<longrightarrow>
      prefix h h' \<and>
      (\<forall>r. res = Inr r \<and> checked r \<noteq> None \<longrightarrow>
         (\<exists>k. rebuilt h h' k node (clone r) \<and> length h' \<le> length h + 2 * Suc k + 1))) \<and>
   (spreadout_s fuel phrasing node h = Some (res2, h2) \<longrightarrow> h2 = h)"
proof (intro conjI impI allI)
  assume e: "extractLeadingCheckbox_s fuel phrasing node h = Some (res, h')"
  then show "prefix h h'" unfolding extractLeadingCheckbox_s_def by (rule descend_s_frame)
  fix r assume "res = Inr r \<and> checked r \<noteq> None"
  with e have "descend_s fuel phrasing node node [] h = Some (Inr r, h')" "checked r \<noteq> None"
    by (simp_all add: extractLeadingCheckbox_s_def)
  then show "\<exists>k. rebuilt h h' k node (clone r) \<and> length h' \<le> length h + 2 * Suc k + 1"
    by (intro descend_s_rebuilt [of h node "[]"]) simp_all
next
  assume "spreadout_s fuel phrasing node h = Some (res2, h2)"
  then show "h2 = h" using spreadout_s_frame_aux [of fuel phrasing] by blast
qed

theorem extract_never_writes_witness:
  "extractLeadingCheckbox_s 5 phrasing_tags_s 8 store1 =
     Some (Inr \<lparr>checked = Some False, clone = 13\<rparr>, store1_after) \<and>
   spreadout_s 5 phrasing_tags_s 8 store1 = Some (Inr True, store1) \<and>
   prefix store1 store1_after \<and>
   (\<exists>k. rebuilt store1 store1_after k 8 13 \<and> length store1_after \<le> length store1 + 2 * Suc k + 1)"
proof -
  have e: "extractLeadingCheckbox_s 5 phrasing_tags_s 8 store1 =
     Some (Inr \<lparr>checked = Some False, clone = 13\<rparr>, store1_after)"
    by code_simp
  have c: "spreadout_s 5 phrasing_tags_s 8 store1 = Some (Inr True, store1)"
    by code_simp
  from extract_never_writes
    [of 5 phrasing_tags_s 8 store1 "Inr \<lparr>checked = Some False, clone = 13\<rparr>" store1_after "Inr True" store1]
    e c show ?thesis by auto
qed

lemma extract_clone_smaller:
  "extractLeadingCheckbox phrasing node = Inr r \<Longrightarrow> checked r \<noteq> None \<Longrightarrow>
   clone r \<noteq> node \<and> size (clone r) < size node"
  using extract_rec_size [of phrasing node]
  by (auto simp: extract_rec_eq split: sum.splits option.splits)


text \<open>
  C10. When the extraction returns a state of the control, the clone is an element that
  the call has allocated: its address is none of the store before the call, and it is
  not the address of the input. The same holds for every element on the spine of the
  clone (\<open>rebuilt\<close>). (Lemma \<open>extract_clone_smaller\<close>: on values, the clone is smaller
  than the input.)
\<close>

theorem extract_clone_is_fresh:
  "extractLeadingCheckbox_s fuel phrasing node h = Some (Inr r, h') \<Longrightarrow> checked r \<noteq> None \<Longrightarrow>
   clone r \<noteq> node \<and> length h \<le> clone r \<and>
   (\<exists>tag props ca. lookup h' (clone r) = Some (ElementObj tag props ca)) \<and>
   (\<exists>k. rebuilt h h' k node (clone r))"
proof -
  assume "extractLeadingCheckbox_s fuel phrasing node h = Some (Inr r, h')" "checked r \<noteq> None"
  then obtain k where k: "rebuilt h h' k node (clone r)"
    using descend_s_rebuilt [of h node "[]" node fuel phrasing r h']
    by (auto simp: extractLeadingCheckbox_s_def)
  from rebuilt_valid [OF k] have "clone r \<noteq> node" "length h \<le> clone r" by simp_all
  moreover from rebuilt_copy [OF k] have "\<exists>tag props ca. lookup h' (clone r) = Some (ElementObj tag props ca)"
    by (auto simp: copy_of_Some)
  ultimately show ?thesis using k by blast
qed

theorem extract_clone_is_fresh_witness:
  "extractLeadingCheckbox_s 5 phrasing_tags_s 8 store1 =
     Some (Inr \<lparr>checked = Some False, clone = 13\<rparr>, store1_after) \<and>
   (13 :: nat) \<noteq> 8 \<and> length store1 \<le> 13 \<and>
   (\<exists>tag props ca. lookup store1_after 13 = Some (ElementObj tag props ca)) \<and>
   (\<exists>k. rebuilt store1 store1_after k 8 13)"
proof -
  have e: "extractLeadingCheckbox_s 5 phrasing_tags_s 8 store1 =
     Some (Inr \<lparr>checked = Some False, clone = 13\<rparr>, store1_after)"
    by code_simp
  from extract_clone_is_fresh [OF e] e show ?thesis by simp
qed

subsection \<open>Claims about the classification\<close>

lemma spreadout_loop_seen:
  "spreadout_loop phrasing ns True \<longleftrightarrow> flow_elements phrasing ns \<noteq> []"
  by (induction phrasing ns rule: flow_elements.induct) auto

lemma spreadout_loop_unseen:
  "spreadout_loop phrasing ns False \<longleftrightarrow>
     (case flow_elements phrasing ns of
        [] \<Rightarrow> False
      | c # cs \<Rightarrow> tagName c = ''p'' \<or> spreadout phrasing c \<or> cs \<noteq> [])"
  by (induction phrasing ns rule: flow_elements.induct) (auto simp: spreadout_loop_seen)

lemma spreadout_flow:
  "spreadout phrasing e \<longleftrightarrow>
     (case flow_elements phrasing (children e) of
        [] \<Rightarrow> False
      | c # cs \<Rightarrow> tagName c = ''p'' \<or> spreadout phrasing c \<or> cs \<noteq> [])"
  by (cases e) (simp add: spreadout_loop_unseen)

lemma flow_elements_member:
  "Element c \<in> set ns \<Longrightarrow> \<not> phrasing c \<Longrightarrow> c \<in> set (flow_elements phrasing ns)"
  by (induction phrasing ns rule: flow_elements.induct) auto

lemma paragraph_child_spreadout:
  assumes "\<forall>c. tagName c = ''p'' \<longrightarrow> \<not> phrasing c" and "paragraph_child e"
  shows "spreadout phrasing e"
proof -
  from assms(2) obtain n where n: "n \<in> set (children e)"
    "case n of Element c \<Rightarrow> tagName c = ''p'' | _ \<Rightarrow> False"
    by (auto simp: paragraph_child_def)
  then obtain c where c: "Element c \<in> set (children e)" "tagName c = ''p''"
    by (auto split: node.splits)
  with assms(1) have "c \<in> set (flow_elements phrasing (children e))"
    by (intro flow_elements_member) auto
  then show ?thesis using c(2)
    by (cases "flow_elements phrasing (children e)") (auto simp: spreadout_flow [of _ e])
qed

lemma flow_elements_none:
  "\<forall>n \<in> set ns. phrasing_content phrasing n \<Longrightarrow> flow_elements phrasing ns = []"
  by (induction phrasing ns rule: flow_elements.induct) (auto simp: phrasing_content_def)

text \<open>
  C6. \<^verbatim>\<open>spreadout\<close> returns true for an element that has a direct child with the
  paragraph tag, or two or more direct flow children, or exactly one flow child for which
  this holds recursively. The phrasing predicate of hast-util-phrasing never accepts a
  paragraph; that property of the parameter is the first hypothesis.
\<close>

theorem spreadout_true:
  "(\<forall>c. tagName c = ''p'' \<longrightarrow> \<not> phrasing c) \<Longrightarrow> spread_by_spec phrasing e \<Longrightarrow> spreadout phrasing e"
proof (induction phrasing e rule: spread_by_spec.induct)
  case (1 phrasing e)
  from "1.prems"(2) consider
      (para) "paragraph_child e"
    | (two) "2 \<le> length (flow_elements phrasing (children e))"
    | (one) c where "flow_elements phrasing (children e) = [c]" "spread_by_spec phrasing c"
    by (subst (asm) spread_by_spec.simps) (auto split: list.splits)
  then show ?case
  proof cases
    case para
    with "1.prems"(1) show ?thesis by (rule paragraph_child_spreadout)
  next
    case two
    then show ?thesis
      by (cases "flow_elements phrasing (children e)") (auto simp: spreadout_flow [of _ e])
  next
    case one
    from "1.IH" [OF one(1) refl "1.prems"(1) one(2)] one(1) show ?thesis
      by (simp add: spreadout_flow [of _ e])
  qed
qed

theorem spreadout_true_witness:
  "spread_by_spec phrasing_tags
     (Elem ''li'' None [Text (ascii ''a''), Element (Elem ''div'' None [Element (Elem ''p'' None [])])]) \<and>
   spreadout phrasing_tags
     (Elem ''li'' None [Text (ascii ''a''), Element (Elem ''div'' None [Element (Elem ''p'' None [])])])"
proof -
  have h1: "\<forall>c. tagName c = ''p'' \<longrightarrow> \<not> phrasing_tags c"
    by (simp add: phrasing_tags_def)
  have h2: "spread_by_spec phrasing_tags
     (Elem ''li'' None [Text (ascii ''a''), Element (Elem ''div'' None [Element (Elem ''p'' None [])])])"
    by (simp add: spread_by_spec.simps phrasing_tags_def paragraph_child_def)
  from spreadout_true [OF h1 h2] h2 show ?thesis by simp
qed

text \<open>
  C7. \<^verbatim>\<open>spreadout\<close> returns false for an element all of whose children are texts or
  phrasing elements, whatever is below them.
\<close>

theorem spreadout_phrasing_only:
  "\<forall>n \<in> set (children e). phrasing_content phrasing n \<Longrightarrow> \<not> spreadout phrasing e"
  by (simp add: spreadout_flow [of _ e] flow_elements_none)

theorem spreadout_phrasing_only_witness:
  "list_all (phrasing_content phrasing_tags)
     [Text (ascii ''a''), Element (Elem ''span'' None [Element (Elem ''p'' None [])])] \<and>
   \<not> spreadout phrasing_tags
       (Elem ''li'' None [Text (ascii ''a''), Element (Elem ''span'' None [Element (Elem ''p'' None [])])])"
  using spreadout_phrasing_only
    [of "Elem ''li'' None [Text (ascii ''a''), Element (Elem ''span'' None [Element (Elem ''p'' None [])])]"
        phrasing_tags]
  by (simp add: phrasing_content_def phrasing_tags_def)

subsection \<open>Claims about the converter\<close>

lemma li_steps:
  "extractLeadingCheckbox phrasing node = Inr r \<Longrightarrow>
   li phrasing (logging f g) node w =
     (Inr \<lparr>node_type = ''listItem'', spread = spreadout phrasing (clone r),
           li_checked = checked r, li_children = g (f (clone r))\<rparr>,
      w @ [CallAll (clone r), CallToFlow (f (clone r)),
           CallPatch (clone r)
             \<lparr>node_type = ''listItem'', spread = spreadout phrasing (clone r),
              li_checked = checked r, li_children = g (f (clone r))\<rparr>])"
  by (simp add: li_def logging_def Let_def)

text \<open>
  C9. The converter does not perform its steps on every input: on
  \<^verbatim>\<open><li><input type="checkbox"></li>\<close> the extraction raises a TypeError, no capability
  is called and nothing is returned. (Lemma \<open>li_steps\<close>: whenever the extraction returns,
  the steps are those of the claim, in that order, with one call of \<^verbatim>\<open>patch\<close>.)
\<close>

theorem li_raises_on_lone_checkbox:
  "li phrasing (logging f g) (Elem ''li'' (Some []) [Element checkbox_plain]) [] = (Inl TypeError, [])"
  by (simp add: li_def extractLeadingCheckbox_def descend.simps checkbox_plain_def is_checkbox_def)

end
